theory Spec2Isabelle
  imports Main
begin

chapter \<open>Definitions\<close>

section \<open>JavaScript values that reach the retry helpers\<close>

text \<open>
  The retry helpers of \<^verbatim>\<open>utils/helpers.ts\<close> catch whatever the operation rejects with
  (\<^verbatim>\<open>catch (e: any)\<close>), read \<^verbatim>\<open>e.message\<close> and hand the string to \<^verbatim>\<open>JSON.parse\<close>.
  A rejection value and a parsed JSON document are both values of the following type.
  Numbers are the integer-valued ones (the only comparison made is \<^verbatim>\<open>=== 429\<close>);
  an object is the list of its own fields.
\<close>

datatype jsval =
    JUndefined
  | JNull
  | JBool bool
  | JNum int
  | JStr string
  | JArr "jsval list"
  | JObj "(string \<times> jsval) list"

text \<open>
  \<^verbatim>\<open>v.p\<close>: reading a property of \<^verbatim>\<open>undefined\<close> or \<^verbatim>\<open>null\<close> raises a TypeError
  (the result \<open>None\<close>); an object yields the field or \<^verbatim>\<open>undefined\<close>; the properties
  read by the helpers (\<^verbatim>\<open>message\<close>, \<^verbatim>\<open>error\<close>, \<^verbatim>\<open>code\<close>) are \<^verbatim>\<open>undefined\<close> on
  booleans, numbers, strings and arrays.
\<close>

fun get_prop :: "jsval \<Rightarrow> string \<Rightarrow> jsval option" where
  "get_prop JUndefined p = None"
| "get_prop JNull p = None"
| "get_prop (JObj fields) p =
     Some (case map_of fields p of None \<Rightarrow> JUndefined | Some v \<Rightarrow> v)"
| "get_prop v p = Some JUndefined"

text \<open>\<^verbatim>\<open>v?.p\<close>: optional chaining short-circuits to \<^verbatim>\<open>undefined\<close> on a nullish value.\<close>

fun opt_prop :: "jsval \<Rightarrow> string \<Rightarrow> jsval" where
  "opt_prop v p = (case get_prop v p of None \<Rightarrow> JUndefined | Some w \<Rightarrow> w)"

section \<open>The retry helpers\<close>

text \<open>
  The classification in the \<^verbatim>\<open>catch\<close> block of \<^verbatim>\<open>withRetry\<close>:
  \<^verbatim>\<open>
      let is429 = false;
      if (typeof e.message === 'string') {
        try {
          const errBody = JSON.parse(e.message);
          if (errBody?.error?.code === 429) { is429 = true; }
        } catch (parseErr) { }
      }
  \<close>
  \<^verbatim>\<open>JSON.parse\<close> is the platform's; it is the parameter \<open>parse\<close>, with \<open>None\<close> for
  the SyntaxError it raises. The result \<open>None\<close> of \<open>is429\<close> is the TypeError raised
  by \<^verbatim>\<open>e.message\<close> itself, which no handler inside \<^verbatim>\<open>withRetry\<close> catches.
\<close>

definition is429 :: "(string \<Rightarrow> jsval option) \<Rightarrow> jsval \<Rightarrow> bool option" where
  "is429 parse e =
     (case get_prop e ''message'' of
        None \<Rightarrow> None
      | Some m \<Rightarrow>
          Some (case m of
                  JStr s \<Rightarrow>
                    (case parse s of
                       None \<Rightarrow> False
                     | Some errBody \<Rightarrow> opt_prop (opt_prop errBody ''error'') ''code'' = JNum 429)
                | _ \<Rightarrow> False))"

text \<open>
  How a call of a retry helper ends. Each constructor is one exit of the source:
  \<^verbatim>\<open>return await fn()\<close>, \<^verbatim>\<open>throw e\<close> inside the loop, the TypeError of the
  classification, an exception raised by the \<^verbatim>\<open>onRetry\<close> callback, and the
  \<^verbatim>\<open>throw lastError\<close> after the loop.
\<close>

datatype 'a completion =
    Returned 'a
  | Rethrown jsval
  | TypeErrorThrown
  | ObserverThrew jsval
  | TrailingThrow jsval

text \<open>
  What a call did on the way: how often it invoked \<^verbatim>\<open>fn\<close>, the arguments of its
  \<^verbatim>\<open>onRetry\<close> calls in order, and the delays it awaited.
\<close>

record trace =
  invocations :: nat
  observed :: "(int \<times> jsval) list"
  waits :: "int list"

definition trace0 :: trace where
  "trace0 = \<lparr>invocations = 0, observed = [], waits = []\<rparr>"

text \<open>
  The operation \<^verbatim>\<open>fn\<close> is called afresh at every attempt and may answer differently
  each time: \<open>fn k\<close> is the outcome of its invocation number \<open>k\<close> (counted from 0),
  \<open>Inl e\<close> a rejection with \<open>e\<close> and \<open>Inr v\<close> the value \<open>v\<close>. The callback
  \<open>onRetry attempt e\<close> is \<open>None\<close> when it returns and \<open>Some x\<close> when it throws \<open>x\<close>.
  \<^verbatim>\<open>delay\<close> resolves after a timeout and never rejects.
\<close>

function withRetry_loop ::
  "(string \<Rightarrow> jsval option) \<Rightarrow> (nat \<Rightarrow> jsval + 'a) \<Rightarrow> int \<Rightarrow> int \<Rightarrow>
   (int \<Rightarrow> jsval \<Rightarrow> jsval option) \<Rightarrow> int \<Rightarrow> jsval \<Rightarrow> trace \<Rightarrow> 'a completion \<times> trace"
where
  "withRetry_loop parse fn retries delayMs onRetry attempt lastError tr =
     (if attempt \<le> retries + 1 then
        (case fn (invocations tr) of
           Inr v \<Rightarrow> (Returned v, tr\<lparr>invocations := Suc (invocations tr)\<rparr>)
         | Inl e \<Rightarrow>
             (case is429 parse e of
                None \<Rightarrow> (TypeErrorThrown, tr\<lparr>invocations := Suc (invocations tr)\<rparr>)
              | Some retryable \<Rightarrow>
                  if retryable \<and> attempt \<le> retries then
                    (case onRetry attempt e of
                       Some x \<Rightarrow>
                         (ObserverThrew x,
                          tr\<lparr>invocations := Suc (invocations tr),
                             observed := observed tr @ [(attempt, e)]\<rparr>)
                     | None \<Rightarrow>
                         withRetry_loop parse fn retries delayMs onRetry (attempt + 1) e
                           (tr\<lparr>invocations := Suc (invocations tr),
                               observed := observed tr @ [(attempt, e)],
                               waits := waits tr @ [delayMs]\<rparr>))
                  else (Rethrown e, tr\<lparr>invocations := Suc (invocations tr)\<rparr>)))
      else (TrailingThrow lastError, tr))"
  by pat_completeness auto
termination
  by (relation "measure (\<lambda>(parse, fn, retries, delayMs, onRetry, attempt, lastError, tr).
        nat (retries + 1 - attempt))") auto

definition withRetry ::
  "(string \<Rightarrow> jsval option) \<Rightarrow> (nat \<Rightarrow> jsval + 'a) \<Rightarrow> int \<Rightarrow> int \<Rightarrow>
   (int \<Rightarrow> jsval \<Rightarrow> jsval option) \<Rightarrow> 'a completion \<times> trace"
where
  "withRetry parse fn retries delayMs onRetry =
     withRetry_loop parse fn retries delayMs onRetry 1 JUndefined trace0"

function withGenericRetry_loop ::
  "(nat \<Rightarrow> jsval + 'a) \<Rightarrow> int \<Rightarrow> int \<Rightarrow>
   (int \<Rightarrow> jsval \<Rightarrow> jsval option) \<Rightarrow> int \<Rightarrow> jsval \<Rightarrow> trace \<Rightarrow> 'a completion \<times> trace"
where
  "withGenericRetry_loop fn retries delayMs onRetry attempt lastError tr =
     (if attempt \<le> retries + 1 then
        (case fn (invocations tr) of
           Inr v \<Rightarrow> (Returned v, tr\<lparr>invocations := Suc (invocations tr)\<rparr>)
         | Inl e \<Rightarrow>
             if attempt \<le> retries then
               (case onRetry attempt e of
                  Some x \<Rightarrow>
                    (ObserverThrew x,
                     tr\<lparr>invocations := Suc (invocations tr),
                        observed := observed tr @ [(attempt, e)]\<rparr>)
                | None \<Rightarrow>
                    withGenericRetry_loop fn retries delayMs onRetry (attempt + 1) e
                      (tr\<lparr>invocations := Suc (invocations tr),
                          observed := observed tr @ [(attempt, e)],
                          waits := waits tr @ [delayMs]\<rparr>))
             else (Rethrown e, tr\<lparr>invocations := Suc (invocations tr)\<rparr>))
      else (TrailingThrow lastError, tr))"
  by pat_completeness auto
termination
  by (relation "measure (\<lambda>(fn, retries, delayMs, onRetry, attempt, lastError, tr).
        nat (retries + 1 - attempt))") auto

definition withGenericRetry ::
  "(nat \<Rightarrow> jsval + 'a) \<Rightarrow> int \<Rightarrow> int \<Rightarrow>
   (int \<Rightarrow> jsval \<Rightarrow> jsval option) \<Rightarrow> 'a completion \<times> trace"
where
  "withGenericRetry fn retries delayMs onRetry =
     withGenericRetry_loop fn retries delayMs onRetry 1 JUndefined trace0"


text \<open>
  Both loops have one shape; they differ in the classification only (\<^verbatim>\<open>withGenericRetry\<close>
  retries on every error). \<open>retry_loop\<close> is that shape with the classification as a
  parameter. It is a device of the proofs: \<open>withRetry_loop\<close> and
  \<open>withGenericRetry_loop\<close> above are the translations of the source, and are shown equal
  to its two instances below.
\<close>

function retry_loop ::
  "(jsval \<Rightarrow> bool option) \<Rightarrow> (nat \<Rightarrow> jsval + 'a) \<Rightarrow> int \<Rightarrow> int \<Rightarrow>
   (int \<Rightarrow> jsval \<Rightarrow> jsval option) \<Rightarrow> int \<Rightarrow> jsval \<Rightarrow> trace \<Rightarrow> 'a completion \<times> trace"
where
  "retry_loop cls fn retries delayMs onRetry attempt lastError tr =
     (if attempt \<le> retries + 1 then
        (case fn (invocations tr) of
           Inr v \<Rightarrow> (Returned v, tr\<lparr>invocations := Suc (invocations tr)\<rparr>)
         | Inl e \<Rightarrow>
             (case cls e of
                None \<Rightarrow> (TypeErrorThrown, tr\<lparr>invocations := Suc (invocations tr)\<rparr>)
              | Some retryable \<Rightarrow>
                  if retryable \<and> attempt \<le> retries then
                    (case onRetry attempt e of
                       Some x \<Rightarrow>
                         (ObserverThrew x,
                          tr\<lparr>invocations := Suc (invocations tr),
                             observed := observed tr @ [(attempt, e)]\<rparr>)
                     | None \<Rightarrow>
                         retry_loop cls fn retries delayMs onRetry (attempt + 1) e
                           (tr\<lparr>invocations := Suc (invocations tr),
                               observed := observed tr @ [(attempt, e)],
                               waits := waits tr @ [delayMs]\<rparr>))
                  else (Rethrown e, tr\<lparr>invocations := Suc (invocations tr)\<rparr>)))
      else (TrailingThrow lastError, tr))"
  by pat_completeness auto
termination
  by (relation "measure (\<lambda>(cls, fn, retries, delayMs, onRetry, attempt, lastError, tr).
        nat (retries + 1 - attempt))") auto

text \<open>The loop at \<open>(a, tr)\<close> goes round once more: the attempt fails with a retryable error,
  retries remain, and the observer returns.\<close>

definition retries_now :: "(jsval \<Rightarrow> bool option) \<Rightarrow> (nat \<Rightarrow> jsval + 'a) \<Rightarrow> int \<Rightarrow>
   (int \<Rightarrow> jsval \<Rightarrow> jsval option) \<Rightarrow> int \<Rightarrow> trace \<Rightarrow> bool" where
  "retries_now cls fn R obs a tr \<longleftrightarrow>
     a \<le> R \<and> (\<exists>e. fn (invocations tr) = Inl e \<and> cls e = Some True \<and> obs a e = None)"

fun observer_threw :: "'a completion \<Rightarrow> bool" where
  "observer_threw (ObserverThrew x) = True"
| "observer_threw c = False"

subsection \<open>Sample inputs\<close>

text \<open>
  The values of \<^verbatim>\<open>JSON.parse\<close> on the messages used in the examples below, and two
  rejection values: the SDK's rate-limit error, whose message is the JSON body of the
  response, and a plain error.
\<close>

definition sample_parse :: "string \<Rightarrow> jsval option" where
  \<open>sample_parse s =
     (if s = ''{"error":{"code":429,"message":"quota"}}''
        then Some (JObj [(''error'', JObj [(''code'', JNum 429), (''message'', JStr ''quota'')])])
      else if s = ''{"error":{"code":500}}''
        then Some (JObj [(''error'', JObj [(''code'', JNum 500)])])
      else if s = ''null'' then Some JNull
      else None)\<close>

definition rate_limited :: jsval where
  \<open>rate_limited = JObj [(''message'', JStr ''{"error":{"code":429,"message":"quota"}}'')]\<close>

definition plain_error :: jsval where
  "plain_error = JObj [(''message'', JStr ''No image data in response.'')]"

definition never_throws :: "int \<Rightarrow> jsval \<Rightarrow> jsval option" where
  "never_throws attempt e = None"

text \<open>An operation that is rate-limited twice and then answers 7, one that always fails
  with a plain error, and one that rejects with \<^verbatim>\<open>null\<close> (\<^verbatim>\<open>Promise.reject(null)\<close>).\<close>

definition fails_twice :: "nat \<Rightarrow> jsval + nat" where
  "fails_twice k = (if k < 2 then Inl rate_limited else Inr 7)"

definition always_plain :: "nat \<Rightarrow> jsval + nat" where
  "always_plain k = Inl plain_error"

definition rejects_null :: "nat \<Rightarrow> jsval + nat" where
  "rejects_null k = Inl JNull"

section \<open>The batch runner of the pose widgets\<close>

text \<open>
  \<^verbatim>\<open>PoseTreadmill.generatePoses\<close> and \<^verbatim>\<open>PoseGanci.generatePoses\<close> are the same runner
  over different prompt lists and concurrency limits:
  \<^verbatim>\<open>
  type PoseResult = {
      prompt: string;
      status: 'pending' | 'done' | 'error';
      imageUrl: string | null;
      errorMessage?: string;
  };
  \<close>
\<close>

datatype status = Pending | Done | Error

text \<open>The field \<^verbatim>\<open>errorMessage\<close> holds whatever \<^verbatim>\<open>e.message\<close> is for the caught value
  \<^verbatim>\<open>e\<close>.\<close>

record PoseResult =
  prompt :: string
  status :: status
  imageUrl :: "string option"
  errorMessage :: "jsval option"

text \<open>
  How the generation call of a job settles. It rejects with an object \<^verbatim>\<open>e\<close> (the error
  of the SDK), of which the runner reads \<^verbatim>\<open>e.message\<close> and nothing else: \<open>Rejected m\<close>
  is a rejection with an object whose \<^verbatim>\<open>message\<close> is \<open>m\<close>. Rejections with \<^verbatim>\<open>null\<close> or
  \<^verbatim>\<open>undefined\<close>, which have no properties, are added to the runner in a later section.
  Or the call resolves with a response; of a response the
  runner uses only \<^verbatim>\<open>candidates?.[0]?.content?.parts.find(p => p.inlineData)\<close>: the first
  part with inline data (its MIME type and its base64 data), if there is one. On a
  response whose first candidate has a content without \<^verbatim>\<open>parts\<close> the lookup itself
  raises a TypeError: \<open>Unreadable\<close>, with the message of that error.
\<close>

datatype response = NoImage | Image string string | Unreadable string

datatype op_result = Rejected jsval | Resolved response

text \<open>
  The runner's state: the fields \<^verbatim>\<open>results\<close> and \<^verbatim>\<open>isRunning\<close> of the widget and
  the local counter \<^verbatim>\<open>completedJobs\<close>. Two more fields record what the run did: the jobs
  whose generation call was issued, in order, and the chunks handed to \<^verbatim>\<open>Promise.all\<close>.
  The status line, the progress bar and the rendering of the grid are left out.
\<close>

record state =
  results :: "PoseResult list"
  isRunning :: bool
  completedJobs :: nat
  started :: "nat list"
  chunks :: "nat list list"

text \<open>
  What the run does not decide. \<open>answer env j\<close> is how the call of job \<open>j\<close> settles.
  The calls of one window settle in the order of their \<open>rank\<close> (smaller first, equal
  ranks in job order), so every order of settling is some \<open>rank\<close>. \<open>stopBefore env j\<close>
  says that the flag \<^verbatim>\<open>isRunning\<close>, a public field of the widget, is cleared from outside
  (\<^verbatim>\<open>isRunning = false\<close>) while job \<open>j\<close> is in flight, just before its call settles.
  JavaScript runs the continuation of a settled call and of \<^verbatim>\<open>Promise.all\<close> to the next
  \<^verbatim>\<open>await\<close> before any event handler, so the flag changes at these moments only.
  The run is followed with its \<^verbatim>\<open>results\<close> array in place: \<^verbatim>\<open>reset()\<close>, which clears the
  flag and also replaces \<^verbatim>\<open>results\<close> by a new empty array, discards the outcomes of
  the run and is not an event of this environment.
\<close>

record env =
  answer :: "nat \<Rightarrow> op_result"
  rank :: "nat \<Rightarrow> nat"
  stopBefore :: "nat \<Rightarrow> bool"

text \<open>
  \<^verbatim>\<open>runJob\<close> up to its \<^verbatim>\<open>await\<close>: the guard \<^verbatim>\<open>if (!this.isRunning) return;\<close>, then
  \<^verbatim>\<open>const result = this.results[jobIndex]\<close> and the call is issued. The job in flight
  is its index with the captured \<^verbatim>\<open>result\<close>.
\<close>

definition runJob_start :: "nat \<Rightarrow> state \<Rightarrow> state \<times> (nat \<times> PoseResult) list" where
  "runJob_start jobIndex s =
     (if \<not> isRunning s then (s, [])
      else (s\<lparr>started := started s @ [jobIndex]\<rparr>, [(jobIndex, results s ! jobIndex)]))"

text \<open>
  \<^verbatim>\<open>
        } catch (e: any) {
            this.results[jobIndex] = { ...this.results[jobIndex], status: 'error', errorMessage: e.message };
        } finally {
            if (this.isRunning) { completedJobs++; ... }
        }
  \<close>
  The index is one of \<^verbatim>\<open>this.results.map((_, index) => index)\<close>, so the write is in range.
  \<open>message\<close> is the value of \<^verbatim>\<open>e.message\<close>, for a caught value \<^verbatim>\<open>e\<close> of which the property
  can be read.
\<close>

definition catch_block :: "nat \<Rightarrow> jsval \<Rightarrow> state \<Rightarrow> state" where
  "catch_block jobIndex message s =
     s\<lparr>results := (results s)[jobIndex :=
          (results s ! jobIndex)\<lparr>status := Error, errorMessage := Some message\<rparr>]\<rparr>"

definition finally_block :: "state \<Rightarrow> state" where
  "finally_block s = (if isRunning s then s\<lparr>completedJobs := completedJobs s + 1\<rparr> else s)"

text \<open>
  \<^verbatim>\<open>runJob\<close> from the moment its call settles:
  \<^verbatim>\<open>
            if (!this.isRunning) return;
            const imagePart = response.candidates?.[0]?.content?.parts.find(p => p.inlineData);
            if (!imagePart?.inlineData) throw new Error("No image data in response.");
            const imageUrl = `data:${imagePart.inlineData.mimeType};base64,${imagePart.inlineData.data}`;
            this.results[jobIndex] = { ...result, status: 'done', imageUrl };
  \<close>
\<close>

definition runJob_settle :: "op_result \<Rightarrow> nat \<times> PoseResult \<Rightarrow> state \<Rightarrow> state" where
  "runJob_settle r job s =
     (case job of (jobIndex, result) \<Rightarrow>
        (case r of
           Rejected message \<Rightarrow> finally_block (catch_block jobIndex message s)
         | Resolved resp \<Rightarrow>
             if \<not> isRunning s then finally_block s
             else
               (case resp of
                  Unreadable message \<Rightarrow>
                    finally_block (catch_block jobIndex (JStr message) s)
                | NoImage \<Rightarrow>
                    finally_block
                      (catch_block jobIndex (JStr ''No image data in response.'') s)
                | Image mimeType data \<Rightarrow>
                    finally_block
                      (s\<lparr>results := (results s)[jobIndex :=
                           result\<lparr>status := Done,
                                  imageUrl := Some (''data:'' @ mimeType @ '';base64,'' @ data)\<rparr>]\<rparr>))))"

text \<open>One event of a window: the flag is cleared if the environment says so, then the call
  of the job settles and the rest of \<^verbatim>\<open>runJob\<close> runs.\<close>

definition settle :: "env \<Rightarrow> nat \<times> PoseResult \<Rightarrow> state \<Rightarrow> state" where
  "settle env job s =
     runJob_settle (answer env (fst job)) job
       (if stopBefore env (fst job) then s\<lparr>isRunning := False\<rparr> else s)"

text \<open>\<^verbatim>\<open>chunk.map(jobIndex => runJob(jobIndex))\<close>: every job of the chunk runs up to its
  \<^verbatim>\<open>await\<close>, in the order of the chunk.\<close>

fun start_all :: "nat list \<Rightarrow> state \<Rightarrow> state \<times> (nat \<times> PoseResult) list" where
  "start_all [] s = (s, [])"
| "start_all (jobIndex # rest) s =
     (case runJob_start jobIndex s of
        (s1, flying) \<Rightarrow> (case start_all rest s1 of (s2, others) \<Rightarrow> (s2, flying @ others)))"

text \<open>\<^verbatim>\<open>await Promise.all(chunk.map(...))\<close>: the jobs are started, then their calls settle
  one after the other; the window is over when the last one has.\<close>

definition run_window :: "env \<Rightarrow> nat list \<Rightarrow> state \<Rightarrow> state" where
  "run_window env chunk s =
     (case start_all chunk (s\<lparr>chunks := chunks s @ [chunk]\<rparr>) of
        (s1, flying) \<Rightarrow> fold (settle env) (sort_key (\<lambda>job. rank env (fst job)) flying) s1)"

text \<open>
  \<^verbatim>\<open>
    for (let i = 0; i < jobs.length; i += this.concurrency) {
        if (!this.isRunning) break;
        const chunk = jobs.slice(i, i + this.concurrency);
        await Promise.all(chunk.map(jobIndex => runJob(jobIndex)));
    }
  \<close>
  \<^verbatim>\<open>jobs\<close> is the list of the indices of \<^verbatim>\<open>results\<close>, so the slice is
  \<open>[i..<min (i + concurrency) n]\<close>. With \<^verbatim>\<open>concurrency\<close> 0 the loop never ends:
  the result \<open>None\<close>.
\<close>

partial_function (option) window_loop :: "env \<Rightarrow> nat \<Rightarrow> nat \<Rightarrow> nat \<Rightarrow> state \<Rightarrow> state option" where
  "window_loop env concurrency n i s =
     (if i < n then
        (if \<not> isRunning s then Some s
         else window_loop env concurrency n (i + concurrency)
                (run_window env [i..<min (i + concurrency) n] s))
      else Some s)"

declare window_loop.simps [code]

definition pending :: "string \<Rightarrow> PoseResult" where
  "pending p = \<lparr>prompt = p, status = Pending, imageUrl = None, errorMessage = None\<rparr>"

text \<open>
  \<^verbatim>\<open>generatePoses\<close> once the uploads are there: \<^verbatim>\<open>isRunning = true\<close>, one pending
  result per prompt, the loop, \<^verbatim>\<open>isRunning = false\<close>.
\<close>

definition generatePoses :: "env \<Rightarrow> nat \<Rightarrow> string list \<Rightarrow> state option" where
  "generatePoses env concurrency prompts =
     map_option (\<lambda>s. s\<lparr>isRunning := False\<rparr>)
       (window_loop env concurrency (length prompts) 0
          \<lparr>results = map pending prompts, isRunning = True, completedJobs = 0,
           started = [], chunks = []\<rparr>)"

definition TREADMILL_POSES :: "string list" where
  "TREADMILL_POSES =
     [''A high angle shot of the person standing confidently on a treadmill.'',
      ''A high angle shot of the person in a dynamic running pose on the treadmill.'',
      ''A wide shot capturing the full body of the person standing on the treadmill, looking powerful.'',
      ''A wide shot of the person stretching on the treadmill, as if preparing for a run.'']"

definition PoseTreadmill_generatePoses :: "env \<Rightarrow> state option" where
  "PoseTreadmill_generatePoses env = generatePoses env 2 TREADMILL_POSES"

definition GANCI_POSES :: "string list" where
  "GANCI_POSES =
     [''holding the keychain up close to the camera with one hand, showing its details.'',
      ''dangling the keychain from their index finger with a smile.'',
      ''showing the keychain attached to a set of keys they are holding.'',
      ''holding out an open palm to the camera, with the keychain resting on it.'',
      ''holding the keychain in their palm, presenting it to the viewer.'',
      ''posing with the keychain hooked onto a belt loop of their jeans.'',
      ''looking down at the keychain in their hand with a look of admiration.'',
      ''raising one hand that is holding the keychain.'',
      ''casually holding a bag where the keychain is prominently attached and visible.'']"

definition PoseGanci_generatePoses :: "env \<Rightarrow> state option" where
  "PoseGanci_generatePoses env = generatePoses env 3 GANCI_POSES"

text \<open>What \<^verbatim>\<open>runJob\<close> writes for a job with prompt \<open>p\<close> whose call settled with \<open>r\<close>
  while the run was on.\<close>

fun recorded :: "string \<Rightarrow> op_result \<Rightarrow> PoseResult" where
  "recorded p (Rejected message) =
     \<lparr>prompt = p, status = Error, imageUrl = None, errorMessage = Some message\<rparr>"
| "recorded p (Resolved (Unreadable message)) =
     \<lparr>prompt = p, status = Error, imageUrl = None, errorMessage = Some (JStr message)\<rparr>"
| "recorded p (Resolved NoImage) =
     \<lparr>prompt = p, status = Error, imageUrl = None,
      errorMessage = Some (JStr ''No image data in response.'')\<rparr>"
| "recorded p (Resolved (Image mimeType data)) =
     \<lparr>prompt = p, status = Done,
      imageUrl = Some (''data:'' @ mimeType @ '';base64,'' @ data), errorMessage = None\<rparr>"

text \<open>What remains of a job whose call settled with \<open>r\<close> after the flag was cleared: a
  rejection is still written by the \<^verbatim>\<open>catch\<close> block, a response is dropped by
  \<^verbatim>\<open>if (!this.isRunning) return;\<close>.\<close>

fun recorded_after_stop :: "string \<Rightarrow> op_result \<Rightarrow> PoseResult" where
  "recorded_after_stop p (Rejected message) = recorded p (Rejected message)"
| "recorded_after_stop p (Resolved resp) = pending p"

text \<open>The chunk of window number \<open>w\<close> (counted from 0) of \<open>n\<close> jobs.\<close>

definition window :: "nat \<Rightarrow> nat \<Rightarrow> nat \<Rightarrow> nat list" where
  "window concurrency n w = [w * concurrency..<min (w * concurrency + concurrency) n]"

text \<open>The order in which the calls of a chunk settle, and whether the flag has been cleared
  by the time the call of job \<open>i\<close> of the chunk settles: it is cleared just before that
  call or before one that settles earlier.\<close>

definition settle_order :: "env \<Rightarrow> nat list \<Rightarrow> nat list" where
  "settle_order env chunk = sort_key (rank env) chunk"

definition stopped_when :: "env \<Rightarrow> nat list \<Rightarrow> nat \<Rightarrow> bool" where
  "stopped_when env chunk i \<longleftrightarrow>
     stopBefore env i \<or>
     (\<exists>j \<in> set (takeWhile (\<lambda>j. j \<noteq> i) (settle_order env chunk)). stopBefore env j)"

text \<open>
  The run in closed form. The loop runs the windows in order up to and including the
  first one during which the flag is cleared; \<open>windows_run\<close> is their number.
  \<open>final_result\<close> is the entry of job \<open>j\<close> when the run is over: the pending entry if
  its window was not run, and otherwise what the job wrote, which depends on its own
  answer and on whether the flag was still set when its call settled.
\<close>

definition window_count :: "nat \<Rightarrow> nat \<Rightarrow> nat" where
  "window_count concurrency n = (n + concurrency - 1) div concurrency"

definition stop_in :: "env \<Rightarrow> nat list \<Rightarrow> bool" where
  "stop_in env chunk \<longleftrightarrow> (\<exists>j \<in> set chunk. stopBefore env j)"

definition windows_run :: "env \<Rightarrow> nat \<Rightarrow> nat \<Rightarrow> nat" where
  "windows_run env concurrency n =
     (case find (\<lambda>w. stop_in env (window concurrency n w)) [0..<window_count concurrency n] of
        None \<Rightarrow> window_count concurrency n
      | Some w \<Rightarrow> Suc w)"

definition outcome :: "env \<Rightarrow> nat list \<Rightarrow> string \<Rightarrow> nat \<Rightarrow> PoseResult" where
  "outcome env chunk p j =
     (if stopped_when env chunk j then recorded_after_stop p (answer env j)
      else recorded p (answer env j))"

definition final_result :: "env \<Rightarrow> nat \<Rightarrow> string list \<Rightarrow> nat \<Rightarrow> PoseResult" where
  "final_result env concurrency prompts j =
     (if j < windows_run env concurrency (length prompts) * concurrency
      then outcome env (window concurrency (length prompts) (j div concurrency)) (prompts ! j) j
      else pending (prompts ! j))"

text \<open>The relation between the state \<open>s\<close> in which the loop reaches window \<open>k\<close> and the
  state \<open>s'\<close> in which it ends, having run the windows \<open>k, \<dots>, k1 - 1\<close>.\<close>

definition run_post ::
  "env \<Rightarrow> nat \<Rightarrow> nat \<Rightarrow> (nat \<Rightarrow> string) \<Rightarrow> nat \<Rightarrow> state \<Rightarrow> state \<Rightarrow> nat \<Rightarrow> bool" where
  "run_post env C n p k s s' k1 \<longleftrightarrow>
     k \<le> k1 \<and>
     chunks s' = chunks s @ map (window C n) [k..<k1] \<and>
     started s' = started s @ concat (map (window C n) [k..<k1]) \<and>
     length (results s') = n \<and>
     (\<forall>j < k * C. results s' ! j = results s ! j) \<and>
     (\<forall>w j. k \<le> w \<and> w < k1 \<and> j \<in> set (window C n w) \<longrightarrow>
        results s' ! j = outcome env (window C n w) (p j) j) \<and>
     (\<forall>j. k1 * C \<le> j \<and> j < n \<longrightarrow> results s' ! j = pending (p j)) \<and>
     (\<forall>w. k \<le> w \<and> Suc w < k1 \<longrightarrow> \<not> stop_in env (window C n w)) \<and>
     (k1 * C < n \<longrightarrow> (k1 = k \<and> \<not> isRunning s) \<or> (k < k1 \<and> stop_in env (window C n (k1 - 1)))) \<and>
     (k < k1 \<longrightarrow> isRunning s \<and> (k1 - 1) * C < n)"

subsection \<open>Sample runs\<close>

definition all_images :: "nat \<Rightarrow> op_result" where
  "all_images j = Resolved (Image ''image/png'' ''iVBORw0KGgo='')"

definition in_job_order :: "nat \<Rightarrow> nat" where
  "in_job_order j = j"

definition last_first :: "nat \<Rightarrow> nat" where
  "last_first j = 100 - j"

definition no_stop :: "nat \<Rightarrow> bool" where
  "no_stop j = False"

definition stop_at_0 :: "nat \<Rightarrow> bool" where
  "stop_at_0 j = (j = 0)"

text \<open>Two runs in which every call answers with an image: the flag is left alone, or it
  is cleared just before the call of job 0 settles.\<close>

definition quiet_run :: env where
  "quiet_run = \<lparr>answer = all_images, rank = last_first, stopBefore = no_stop\<rparr>"





section \<open>The batch runner when a call rejects with any value\<close>

text \<open>
  A promise may be rejected with any value, and \<^verbatim>\<open>catch (e: any)\<close> receives it as it is.
  The \<^verbatim>\<open>catch\<close> block of \<^verbatim>\<open>runJob\<close> reads \<^verbatim>\<open>e.message\<close> without a test of \<^verbatim>\<open>e\<close>:
  \<^verbatim>\<open>
        } catch (e: any) {
            console.error(`Error generating pose ${jobIndex}:`, e);
            this.results[jobIndex] = { ...this.results[jobIndex], status: 'error', errorMessage: e.message };
        } finally {
  \<close>
  When \<^verbatim>\<open>e\<close> is \<^verbatim>\<open>null\<close> or \<^verbatim>\<open>undefined\<close> the read raises a TypeError inside the \<^verbatim>\<open>catch\<close>
  block, before the assignment: nothing is written, the \<^verbatim>\<open>finally\<close> block runs, and
  the promise of \<^verbatim>\<open>runJob\<close> is rejected. Then \<^verbatim>\<open>Promise.all\<close> rejects, the \<^verbatim>\<open>await\<close> of
  the loop throws, and \<^verbatim>\<open>generatePoses\<close> itself is rejected: no further window is
  started and the statements after the loop, \<^verbatim>\<open>this.isRunning = false\<close> among them, are
  not run. The other calls of the window are still in flight; they settle later and
  the rest of their \<^verbatim>\<open>runJob\<close> runs as in any window.

  This section writes the runner out with that path. A call settles with a rejection
  value of type \<open>jsval\<close> or with a response.
\<close>

datatype call_result = CallRejected jsval | CallResolved response

record call_env =
  call :: "nat \<Rightarrow> call_result"
  call_rank :: "nat \<Rightarrow> nat"
  call_stopBefore :: "nat \<Rightarrow> bool"

text \<open>
  \<^verbatim>\<open>runJob\<close> from the moment its call settles. The second component says whether the
  promise of \<^verbatim>\<open>runJob\<close> is rejected. After a response the function is
  \<open>runJob_settle\<close>, whose \<^verbatim>\<open>catch\<close> block receives Error objects made by the runner
  itself (\<^verbatim>\<open>new Error("No image data in response.")\<close>, the TypeError of the lookup).
\<close>

definition runJob_settle_call ::
  "call_result \<Rightarrow> nat \<times> PoseResult \<Rightarrow> state \<Rightarrow> state \<times> bool" where
  "runJob_settle_call r job s =
     (case r of
        CallRejected e \<Rightarrow>
          (case get_prop e ''message'' of
             None \<Rightarrow> (finally_block s, True)
           | Some message \<Rightarrow> (finally_block (catch_block (fst job) message s), False))
      | CallResolved resp \<Rightarrow> (runJob_settle (Resolved resp) job s, False))"

text \<open>One event of a window, as in \<open>settle\<close>; \<open>rejected\<close> says whether the promise of a
  \<^verbatim>\<open>runJob\<close> of the window has been rejected so far.\<close>

definition settle_call ::
  "call_env \<Rightarrow> nat \<times> PoseResult \<Rightarrow> state \<times> bool \<Rightarrow> state \<times> bool" where
  "settle_call env job sr =
     (case sr of (s, rejected) \<Rightarrow>
        (case runJob_settle_call (call env (fst job)) job
                (if call_stopBefore env (fst job) then s\<lparr>isRunning := False\<rparr> else s) of
           (s', r) \<Rightarrow> (s', rejected \<or> r)))"

text \<open>A window: the jobs are started, then every call settles. The result says whether
  \<^verbatim>\<open>Promise.all\<close> was rejected.\<close>

definition run_window_call :: "call_env \<Rightarrow> nat list \<Rightarrow> state \<Rightarrow> state \<times> bool" where
  "run_window_call env chunk s =
     (case start_all chunk (s\<lparr>chunks := chunks s @ [chunk]\<rparr>) of
        (s1, flying) \<Rightarrow>
          fold (settle_call env) (sort_key (\<lambda>job. call_rank env (fst job)) flying) (s1, False))"

text \<open>The loop. A rejected \<^verbatim>\<open>Promise.all\<close> makes \<^verbatim>\<open>await\<close> throw, which ends the loop and
  the function; the result is the state once the calls of that window have settled,
  with \<open>True\<close>.\<close>

partial_function (option) window_loop_call ::
  "call_env \<Rightarrow> nat \<Rightarrow> nat \<Rightarrow> nat \<Rightarrow> state \<Rightarrow> (state \<times> bool) option" where
  "window_loop_call env concurrency n i s =
     (if i < n then
        (if \<not> isRunning s then Some (s, False)
         else
           (let after = run_window_call env [i..<min (i + concurrency) n] s in
            if snd after then Some (fst after, True)
            else window_loop_call env concurrency n (i + concurrency) (fst after)))
      else Some (s, False))"

declare window_loop_call.simps [code]

text \<open>How the promise of \<^verbatim>\<open>generatePoses\<close> settles.\<close>

datatype run_end = Returns | Rejects

text \<open>\<^verbatim>\<open>generatePoses\<close>: as before, except that \<^verbatim>\<open>this.isRunning = false\<close> is not reached
  when the loop has thrown.\<close>

definition generatePoses_call ::
  "call_env \<Rightarrow> nat \<Rightarrow> string list \<Rightarrow> (state \<times> run_end) option" where
  "generatePoses_call env concurrency prompts =
     map_option (\<lambda>after. if snd after then (fst after, Rejects)
                          else ((fst after)\<lparr>isRunning := False\<rparr>, Returns))
       (window_loop_call env concurrency (length prompts) 0
          \<lparr>results = map pending prompts, isRunning = True, completedJobs = 0,
           started = [], chunks = []\<rparr>)"

definition PoseTreadmill_generatePoses_call :: "call_env \<Rightarrow> (state \<times> run_end) option" where
  "PoseTreadmill_generatePoses_call env = generatePoses_call env 2 TREADMILL_POSES"

definition PoseGanci_generatePoses_call :: "call_env \<Rightarrow> (state \<times> run_end) option" where
  "PoseGanci_generatePoses_call env = generatePoses_call env 3 GANCI_POSES"

text \<open>No call of the run rejects with \<^verbatim>\<open>null\<close> or \<^verbatim>\<open>undefined\<close>.\<close>

definition no_nullish_rejection :: "call_env \<Rightarrow> bool" where
  "no_nullish_rejection env \<longleftrightarrow>
     (\<forall>j. call env j \<noteq> CallRejected JNull \<and> call env j \<noteq> CallRejected JUndefined)"

text \<open>
  Such a run is a run of the runner of the previous section: a rejection with \<^verbatim>\<open>e\<close> is
  seen there through \<^verbatim>\<open>e.message\<close>. (The value chosen for \<^verbatim>\<open>null\<close> and \<^verbatim>\<open>undefined\<close> is of
  no use: the two runners differ on them.)
\<close>

fun seen :: "call_result \<Rightarrow> op_result" where
  "seen (CallRejected e) = Rejected (opt_prop e ''message'')"
| "seen (CallResolved resp) = Resolved resp"

definition seen_env :: "call_env \<Rightarrow> env" where
  "seen_env env =
     \<lparr>answer = (\<lambda>j. seen (call env j)), rank = call_rank env, stopBefore = call_stopBefore env\<rparr>"

subsection \<open>Sample runs\<close>

text \<open>What the calls do: every call answers with an image; every call is rejected with
  an Error object; every call is rejected with \<^verbatim>\<open>null\<close>; the call of job 0 is rejected
  with \<^verbatim>\<open>null\<close> and the others answer with an image.\<close>

definition quota_error :: jsval where
  "quota_error = JObj [(''name'', JStr ''Error''), (''message'', JStr ''quota exceeded'')]"

definition all_quota_errors :: "nat \<Rightarrow> call_result" where
  "all_quota_errors j = CallRejected quota_error"


definition all_image_calls :: "nat \<Rightarrow> call_result" where
  "all_image_calls j = CallResolved (Image ''image/png'' ''iVBORw0KGgo='')"


definition all_null :: "nat \<Rightarrow> call_result" where
  "all_null j = CallRejected JNull"

text \<open>The runs: the flag is left alone in all of them but \<open>stopped_failing_calls\<close>, where it
  is cleared just before the call of job 0 settles.\<close>

definition failing_calls :: call_env where
  "failing_calls =
     \<lparr>call = all_quota_errors, call_rank = in_job_order, call_stopBefore = no_stop\<rparr>"

definition stopped_failing_calls :: call_env where
  "stopped_failing_calls =
     \<lparr>call = all_quota_errors, call_rank = in_job_order, call_stopBefore = stop_at_0\<rparr>"

definition null_calls :: call_env where
  "null_calls = \<lparr>call = all_null, call_rank = in_job_order, call_stopBefore = no_stop\<rparr>"


section \<open>The batch runner of the batch editor\<close>

text \<open>
  \<^verbatim>\<open>BatchEditor.generateEdits\<close> runs the same loop over jobs that are pairs of a file
  index and a prompt index, with a two-dimensional \<^verbatim>\<open>results\<close> array, and has a stop
  button, whose handler is \<^verbatim>\<open>this.isRunning = false\<close>:
  \<^verbatim>\<open>
  type EditResult = {
      status: 'pending' | 'done' | 'error';
      imageUrl: string | null;
      errorMessage?: string;
  };
  \<close>
\<close>

record EditResult =
  edit_status :: status
  edit_imageUrl :: "string option"
  edit_errorMessage :: "string option"

text \<open>
  How the work of a job ends: the file is read (\<^verbatim>\<open>blobToDataUrl\<close>) and the generation
  call is made under \<^verbatim>\<open>withGenericRetry\<close> with five retries. It is rejected with an
  object whose \<^verbatim>\<open>message\<close> is a string (an Error) or is missing (the event of the file
  reader), or it resolves with a response.
\<close>

datatype edit_result = EditRejected "string option" | EditResolved response

type_synonym job = "nat \<times> nat"

record edit_state =
  edit_results :: "EditResult list list"
  edit_isRunning :: bool
  edit_completedJobs :: nat
  edit_started :: "job list"
  edit_chunks :: "job list list"

text \<open>The environment of a run: how the work of each job ends, the order in which the jobs
  of a window settle, and the jobs in flight just before whose settling the stop button
  is clicked.\<close>

record edit_env =
  edit_answer :: "job \<Rightarrow> edit_result"
  edit_rank :: "job \<Rightarrow> nat"
  stop_clicked_before :: "job \<Rightarrow> bool"


text \<open>\<^verbatim>\<open>this.results[fileIndex][promptIndex] = v\<close>, with both indices in range.\<close>

definition set_result :: "job \<Rightarrow> EditResult \<Rightarrow> edit_state \<Rightarrow> edit_state" where
  "set_result job v s =
     (case job of (fileIndex, promptIndex) \<Rightarrow>
        s\<lparr>edit_results := (edit_results s)[fileIndex :=
             (edit_results s ! fileIndex)[promptIndex := v]]\<rparr>)"

definition entry :: "edit_state \<Rightarrow> job \<Rightarrow> EditResult" where
  "entry s job = edit_results s ! fst job ! snd job"

definition edit_finally :: "edit_state \<Rightarrow> edit_state" where
  "edit_finally s =
     (if edit_isRunning s then s\<lparr>edit_completedJobs := edit_completedJobs s + 1\<rparr> else s)"


text \<open>
  The rest of \<^verbatim>\<open>runJob\<close>, from the moment the work of the job ends:
  \<^verbatim>\<open>
            if (!this.isRunning) return;
            const imagePart = response.candidates?.[0]?.content?.parts.find(p => p.inlineData);
            if (!imagePart?.inlineData) throw new Error("No image data in response.");
            const imageUrl = `data:${imagePart.inlineData.mimeType};base64,${imagePart.inlineData.data}`;
            this.results[fileIndex][promptIndex] = { status: 'done', imageUrl };
            ...
        } catch(e: any) {
            this.results[fileIndex][promptIndex] = { status: 'error', imageUrl: null, errorMessage: e.message };
            ...
        } finally {
            if (this.isRunning) { completedJobs++; ... }
        }
  \<close>
\<close>

definition editJob_settle :: "edit_result \<Rightarrow> job \<Rightarrow> edit_state \<Rightarrow> edit_state" where
  "editJob_settle r job s =
     (case r of
        EditRejected message \<Rightarrow>
          edit_finally
            (set_result job
               \<lparr>edit_status = Error, edit_imageUrl = None, edit_errorMessage = message\<rparr> s)
      | EditResolved resp \<Rightarrow>
          if \<not> edit_isRunning s then edit_finally s
          else
            (case resp of
               Unreadable message \<Rightarrow>
                 edit_finally
                   (set_result job
                      \<lparr>edit_status = Error, edit_imageUrl = None,
                       edit_errorMessage = Some message\<rparr> s)
             | NoImage \<Rightarrow>
                 edit_finally
                   (set_result job
                      \<lparr>edit_status = Error, edit_imageUrl = None,
                       edit_errorMessage = Some ''No image data in response.''\<rparr> s)
             | Image mimeType data \<Rightarrow>
                 edit_finally
                   (set_result job
                      \<lparr>edit_status = Done,
                       edit_imageUrl = Some (''data:'' @ mimeType @ '';base64,'' @ data),
                       edit_errorMessage = None\<rparr> s)))"

definition edit_settle :: "edit_env \<Rightarrow> job \<Rightarrow> edit_state \<Rightarrow> edit_state" where
  "edit_settle env job s =
     editJob_settle (edit_answer env job) job
       (if stop_clicked_before env job then s\<lparr>edit_isRunning := False\<rparr> else s)"













chapter \<open>Properties\<close>

section \<open>The retry helpers\<close>

subsection \<open>The common loop\<close>

declare withRetry_loop.simps [simp del]
declare withGenericRetry_loop.simps [simp del]
declare retry_loop.simps [simp del]

lemma withRetry_loop_is_retry_loop:
  "withRetry_loop parse fn R d obs a le tr = retry_loop (is429 parse) fn R d obs a le tr"
proof (induction parse fn R d obs a le tr rule: withRetry_loop.induct)
  case (1 parse fn R d obs a le tr)
  show ?case
    apply (subst withRetry_loop.simps)
    apply (subst retry_loop.simps)
    apply (simp split: sum.splits option.splits add: "1.IH")
    done
qed

lemma withGenericRetry_loop_is_retry_loop:
  "withGenericRetry_loop fn R d obs a le tr = retry_loop (\<lambda>e. Some True) fn R d obs a le tr"
proof (induction fn R d obs a le tr rule: withGenericRetry_loop.induct)
  case (1 fn R d obs a le tr)
  show ?case
    apply (subst withGenericRetry_loop.simps)
    apply (subst retry_loop.simps)
    apply (simp split: sum.splits option.splits add: "1.IH")
    done
qed

lemma retry_loop_step:
  assumes "a \<le> R" "fn (invocations tr) = Inl e" "cls e = Some True" "obs a e = None"
  shows "retry_loop cls fn R d obs a le tr =
         retry_loop cls fn R d obs (a + 1) e
           (tr\<lparr>invocations := Suc (invocations tr),
               observed := observed tr @ [(a, e)],
               waits := waits tr @ [d]\<rparr>)"
  using assms by (subst retry_loop.simps) simp

lemma retry_loop_induct [case_names stop step]:
  assumes stop: "\<And>a le tr. \<not> retries_now cls fn R obs a tr \<Longrightarrow> P a le tr"
    and step: "\<And>a le tr e. a \<le> R \<Longrightarrow> fn (invocations tr) = Inl e \<Longrightarrow> cls e = Some True \<Longrightarrow>
                 obs a e = None \<Longrightarrow>
                 P (a + 1) e (tr\<lparr>invocations := Suc (invocations tr),
                                 observed := observed tr @ [(a, e)],
                                 waits := waits tr @ [d]\<rparr>) \<Longrightarrow> P a le tr"
  shows "P a le tr"
  using assms
proof (induction cls fn R d obs a le tr rule: retry_loop.induct)
  case (1 cls fn R d obs a le tr)
  note stop = "1.prems"(1) and step = "1.prems"(2)
  show ?case
  proof (cases "retries_now cls fn R obs a tr")
    case False
    then show ?thesis by (rule stop)
  next
    case True
    then obtain e where e: "a \<le> R" "fn (invocations tr) = Inl e" "cls e = Some True" "obs a e = None"
      unfolding retries_now_def by blast
    have "P (a + 1) e (tr\<lparr>invocations := Suc (invocations tr),
                                 observed := observed tr @ [(a, e)],
                                 waits := waits tr @ [d]\<rparr>)"
    proof (rule "1.IH" [OF _ e(2) e(3) _ e(4)])
      show "a \<le> R + 1" using e(1) by simp
      show "True \<and> a \<le> R" using e(1) by simp
      show "\<And>a le tr. \<not> retries_now cls fn R obs a tr \<Longrightarrow> P a le tr" by (rule stop)
      show "\<And>a le tr e. a \<le> R \<Longrightarrow> fn (invocations tr) = Inl e \<Longrightarrow> cls e = Some True \<Longrightarrow>
                 obs a e = None \<Longrightarrow>
                 P (a + 1) e (tr\<lparr>invocations := Suc (invocations tr),
                                 observed := observed tr @ [(a, e)],
                                 waits := waits tr @ [d]\<rparr>) \<Longrightarrow> P a le tr"
        by (rule step)
    qed
    then show ?thesis by (rule step [OF e])
  qed
qed

lemma retry_loop_stop:
  assumes "\<not> retries_now cls fn R obs a tr"
  shows "retry_loop cls fn R d obs a le tr =
     (if a \<le> R + 1 then
        (case fn (invocations tr) of
           Inr v \<Rightarrow> (Returned v, tr\<lparr>invocations := Suc (invocations tr)\<rparr>)
         | Inl e \<Rightarrow>
             (case cls e of
                None \<Rightarrow> (TypeErrorThrown, tr\<lparr>invocations := Suc (invocations tr)\<rparr>)
              | Some retryable \<Rightarrow>
                  if retryable \<and> a \<le> R then
                    (case obs a e of
                       Some x \<Rightarrow>
                         (ObserverThrew x,
                          tr\<lparr>invocations := Suc (invocations tr),
                             observed := observed tr @ [(a, e)]\<rparr>)
                     | None \<Rightarrow> (TrailingThrow le, tr))
                  else (Rethrown e, tr\<lparr>invocations := Suc (invocations tr)\<rparr>)))
      else (TrailingThrow le, tr))"
  using assms unfolding retries_now_def
  by (subst retry_loop.simps) (auto split: sum.split option.split)


lemma rl_bound:
  "invocations tr \<le> invocations (snd (retry_loop cls fn R d obs a le tr)) \<and>
   int (invocations (snd (retry_loop cls fn R d obs a le tr)))
     \<le> int (invocations tr) + max 0 (R + 2 - a)"
proof (induction a le tr rule: retry_loop_induct [where cls = cls and fn = fn and R = R and obs = obs and d = d])
  case (stop a le tr)
  then show ?case
    by (auto simp: retry_loop_stop retries_now_def split: sum.split option.split)
next
  case (step a le tr e)
  then show ?case by (simp add: retry_loop_step)
qed

lemma rl_failed_before:
  "invocations tr \<le> k \<Longrightarrow> Suc k < invocations (snd (retry_loop cls fn R d obs a le tr)) \<Longrightarrow>
   isl (fn k)"
proof (induction a le tr rule: retry_loop_induct [where cls = cls and fn = fn and R = R and obs = obs and d = d])
  case (stop a le tr)
  from stop.prems stop.hyps show ?case
    by (auto simp: retry_loop_stop retries_now_def split: sum.splits option.splits if_splits)
next
  case (step a le tr e)
  show ?case
  proof (cases "k = invocations tr")
    case True
    with step.hyps show ?thesis by simp
  next
    case False
    with step.prems have "Suc (invocations tr) \<le> k" by simp
    with step show ?thesis by (simp add: retry_loop_step)
  qed
qed

lemma rl_returned_iff:
  "fst (retry_loop cls fn R d obs a le tr) = Returned v \<longleftrightarrow>
     invocations tr < invocations (snd (retry_loop cls fn R d obs a le tr)) \<and>
     fn (invocations (snd (retry_loop cls fn R d obs a le tr)) - 1) = Inr v"
proof (induction a le tr rule: retry_loop_induct [where cls = cls and fn = fn and R = R and obs = obs and d = d])
  case (stop a le tr)
  then show ?case
    by (auto simp: retry_loop_stop retries_now_def split: sum.split option.split)
next
  case (step a le tr e)
  have "Suc (invocations tr) \<le> invocations (snd (retry_loop cls fn R d obs (a + 1) e
           (tr\<lparr>invocations := Suc (invocations tr),
               observed := observed tr @ [(a, e)],
               waits := waits tr @ [d]\<rparr>)))"
    using rl_bound [of "tr\<lparr>invocations := Suc (invocations tr),
               observed := observed tr @ [(a, e)],
               waits := waits tr @ [d]\<rparr>" cls fn R d obs "a + 1" e] by simp
  with step show ?case
    by (auto simp: retry_loop_step)
qed

lemma rl_no_trailing:
  "a \<le> R + 1 \<Longrightarrow>
   fst (retry_loop cls fn R d obs a le tr) \<noteq> TrailingThrow x \<and>
   invocations tr < invocations (snd (retry_loop cls fn R d obs a le tr))"
proof (induction a le tr rule: retry_loop_induct [where cls = cls and fn = fn and R = R and obs = obs and d = d])
  case (stop a le tr)
  then show ?case
    by (auto simp: retry_loop_stop retries_now_def split: sum.split option.split)
next
  case (step a le tr e)
  then show ?case by (auto simp: retry_loop_step)
qed


lemma rl_failure_exit:
  "invocations tr \<le> k \<Longrightarrow> k < invocations (snd (retry_loop cls fn R d obs a le tr)) \<Longrightarrow>
   fn k = Inl e \<Longrightarrow>
   cls e = Some False \<or> (cls e \<noteq> None \<and> R < a + int (k - invocations tr)) \<Longrightarrow>
   fst (retry_loop cls fn R d obs a le tr) = Rethrown e \<and>
   invocations (snd (retry_loop cls fn R d obs a le tr)) = Suc k"
proof (induction a le tr rule: retry_loop_induct [where cls = cls and fn = fn and R = R and obs = obs and d = d])
  case (stop a le tr)
  have "invocations (snd (retry_loop cls fn R d obs a le tr)) \<le> Suc (invocations tr)"
    using stop.hyps by (auto simp: retry_loop_stop split: sum.split option.split)
  with stop.prems have k: "k = invocations tr" by simp
  from stop.prems stop.hyps show ?case unfolding k
    by (auto simp: retry_loop_stop retries_now_def split: sum.splits option.splits if_splits)
next
  case (step a le tr e')
  show ?case
  proof (cases "k = invocations tr")
    case True
    with step.hyps step.prems show ?thesis by auto
  next
    case False
    with step.prems have k: "Suc (invocations tr) \<le> k" by simp
    then have "a + 1 + int (k - Suc (invocations tr)) = a + int (k - invocations tr)" by simp
    with step k show ?thesis by (simp add: retry_loop_step)
  qed
qed

lemma rl_rethrown:
  "fst (retry_loop cls fn R d obs a le tr) = Rethrown e \<Longrightarrow>
     invocations tr < invocations (snd (retry_loop cls fn R d obs a le tr)) \<and>
     fn (invocations (snd (retry_loop cls fn R d obs a le tr)) - 1) = Inl e"
proof (induction a le tr rule: retry_loop_induct [where cls = cls and fn = fn and R = R and obs = obs and d = d])
  case (stop a le tr)
  from stop.prems stop.hyps show ?case
    by (auto simp: retry_loop_stop retries_now_def split: sum.splits option.splits if_splits)
next
  case (step a le tr e')
  have "Suc (invocations tr) \<le> invocations (snd (retry_loop cls fn R d obs (a + 1) e'
           (tr\<lparr>invocations := Suc (invocations tr),
               observed := observed tr @ [(a, e')],
               waits := waits tr @ [d]\<rparr>)))"
    using rl_bound [of "tr\<lparr>invocations := Suc (invocations tr),
               observed := observed tr @ [(a, e')],
               waits := waits tr @ [d]\<rparr>" cls fn R d obs "a + 1" e'] by simp
  with step show ?case
    by (auto simp: retry_loop_step)
qed


lemma rl_observed:
  "a \<le> R + 1 \<Longrightarrow>
   \<exists>m. observed (snd (retry_loop cls fn R d obs a le tr)) =
         observed tr @ map (\<lambda>i. (a + int i, projl (fn (invocations tr + i)))) [0..<m] \<and>
       invocations (snd (retry_loop cls fn R d obs a le tr)) =
         invocations tr + m + (if observer_threw (fst (retry_loop cls fn R d obs a le tr)) then 0 else 1) \<and>
       a + int m \<le> R + 1"
proof (induction a le tr rule: retry_loop_induct [where cls = cls and fn = fn and R = R and obs = obs and d = d])
  case (stop a le tr)
  show ?case
  proof (cases "observer_threw (fst (retry_loop cls fn R d obs a le tr))")
    case True
    with stop show ?thesis
      by (intro exI [of _ 1])
         (auto simp: retry_loop_stop retries_now_def split: sum.splits option.splits if_splits)
  next
    case False
    with stop show ?thesis
      by (intro exI [of _ 0])
         (auto simp: retry_loop_stop retries_now_def split: sum.splits option.splits if_splits)
  qed
next
  case (step a le tr e)
  let ?tr1 = "tr\<lparr>invocations := Suc (invocations tr),
               observed := observed tr @ [(a, e)],
               waits := waits tr @ [d]\<rparr>"
  let ?res = "retry_loop cls fn R d obs (a + 1) e ?tr1"
  from step.hyps have "a + 1 \<le> R + 1" by simp
  from step.IH [OF this] obtain m where
    m: "observed (snd ?res) =
          observed ?tr1 @ map (\<lambda>i. (a + 1 + int i, projl (fn (invocations ?tr1 + i)))) [0..<m]"
       "invocations (snd ?res) = invocations ?tr1 + m + (if observer_threw (fst ?res) then 0 else 1)"
       "a + 1 + int m \<le> R + 1"
    by blast
  have eq: "retry_loop cls fn R d obs a le tr = ?res"
    using step.hyps by (simp add: retry_loop_step)
  have "map (\<lambda>i. (a + int i, projl (fn (invocations tr + i)))) [0..<Suc m] =
        (a, e) # map (\<lambda>i. (a + 1 + int i, projl (fn (invocations ?tr1 + i)))) [0..<m]"
    using step.hyps(2) by (simp add: map_upt_Suc add.commute add.left_commute del: upt_Suc)
  with m show ?case unfolding eq
    by (intro exI [of _ "Suc m"]) simp
qed



lemma rl_success:
  assumes "invocations tr \<le> k" "k < invocations (snd (retry_loop cls fn R d obs a le tr))"
    "fn k = Inr v"
  shows "fst (retry_loop cls fn R d obs a le tr) = Returned v \<and>
         invocations (snd (retry_loop cls fn R d obs a le tr)) = Suc k"
proof -
  have "\<not> Suc k < invocations (snd (retry_loop cls fn R d obs a le tr))"
    using rl_failed_before [OF assms(1), of cls fn R d obs a le] assms(3) by auto
  with assms(2) have last: "invocations (snd (retry_loop cls fn R d obs a le tr)) = Suc k"
    by simp
  with assms show ?thesis by (simp add: rl_returned_iff)
qed

lemmas withRetry_unfold = withRetry_def withRetry_loop_is_retry_loop
lemmas withGenericRetry_unfold = withGenericRetry_def withGenericRetry_loop_is_retry_loop

subsection \<open>The retry bound\<close>

text \<open>
  C1. For every retries bound \<open>R \<ge> 0\<close>, every operation and every delay, \<^verbatim>\<open>withRetry\<close>
  and \<^verbatim>\<open>withGenericRetry\<close> invoke the operation at most \<open>R + 1\<close> times; and if an
  invocation they make succeeds, they return its value and it is the last invocation.
\<close>

theorem retry_bound_first_success:
  assumes "0 \<le> R"
  shows "int (invocations (snd (withRetry parse fn R d obs))) \<le> R + 1 \<and>
         (\<forall>k v. k < invocations (snd (withRetry parse fn R d obs)) \<and> fn k = Inr v \<longrightarrow>
                fst (withRetry parse fn R d obs) = Returned v \<and>
                invocations (snd (withRetry parse fn R d obs)) = Suc k) \<and>
         int (invocations (snd (withGenericRetry fn R d obs))) \<le> R + 1 \<and>
         (\<forall>k v. k < invocations (snd (withGenericRetry fn R d obs)) \<and> fn k = Inr v \<longrightarrow>
                fst (withGenericRetry fn R d obs) = Returned v \<and>
                invocations (snd (withGenericRetry fn R d obs)) = Suc k)"
proof -
  have bound: "int (invocations (snd (retry_loop cls fn R d obs 1 JUndefined trace0))) \<le> R + 1"
    for cls
    using rl_bound [of trace0 cls fn R d obs 1 JUndefined] assms by (simp add: trace0_def)
  have first: "fst (retry_loop cls fn R d obs 1 JUndefined trace0) = Returned v \<and>
      invocations (snd (retry_loop cls fn R d obs 1 JUndefined trace0)) = Suc k"
    if "k < invocations (snd (retry_loop cls fn R d obs 1 JUndefined trace0))" "fn k = Inr v"
    for cls k v
    using rl_success [of trace0 k cls fn R d obs 1 JUndefined v] that by (simp add: trace0_def)
  show ?thesis
    unfolding withRetry_unfold withGenericRetry_unfold
    using bound first by blast
qed

lemma is429_rate_limited: "is429 sample_parse rate_limited = Some True"
  by (simp add: is429_def sample_parse_def rate_limited_def)

lemma withRetry_fails_twice:
  "withRetry sample_parse fails_twice 3 1000 never_throws =
     (Returned 7, \<lparr>invocations = 3, observed = [(1, rate_limited), (2, rate_limited)],
                   waits = [1000, 1000]\<rparr>)"
  by (simp add: withRetry_def withRetry_loop.simps trace0_def is429_rate_limited
      fails_twice_def never_throws_def)

lemma withGenericRetry_fails_twice:
  "withGenericRetry fails_twice 3 1000 never_throws =
     (Returned 7, \<lparr>invocations = 3, observed = [(1, rate_limited), (2, rate_limited)],
                   waits = [1000, 1000]\<rparr>)"
  by (simp add: withGenericRetry_def withGenericRetry_loop.simps trace0_def
      fails_twice_def never_throws_def)

theorem retry_bound_first_success_witness:
  "(0::int) \<le> 3 \<and> fails_twice 2 = Inr 7 \<and>
   fst (withRetry sample_parse fails_twice 3 1000 never_throws) = Returned 7 \<and>
   invocations (snd (withRetry sample_parse fails_twice 3 1000 never_throws)) = 3 \<and>
   fst (withGenericRetry fails_twice 3 1000 never_throws) = Returned 7 \<and>
   invocations (snd (withGenericRetry fails_twice 3 1000 never_throws)) = 3"
  using retry_bound_first_success [of 3 sample_parse fails_twice 1000 never_throws]
  by (simp add: withRetry_fails_twice withGenericRetry_fails_twice fails_twice_def)

subsection \<open>The statement after the loop\<close>

text \<open>
  C10. For every retries bound \<open>R \<ge> 0\<close> the \<^verbatim>\<open>throw lastError\<close> after the loop of
  \<^verbatim>\<open>withRetry\<close> and of \<^verbatim>\<open>withGenericRetry\<close> is never reached: the call invokes the
  operation at least once and ends inside the loop; a value it returns is the value of
  its last invocation, and an error it rethrows is the error of its last invocation.
\<close>

theorem trailing_throw_unreachable:
  assumes "0 \<le> R"
  shows "(\<forall>x. fst (withRetry parse fn R d obs) \<noteq> TrailingThrow x) \<and>
         0 < invocations (snd (withRetry parse fn R d obs)) \<and>
         (\<forall>v. fst (withRetry parse fn R d obs) = Returned v \<longrightarrow>
              fn (invocations (snd (withRetry parse fn R d obs)) - 1) = Inr v) \<and>
         (\<forall>e. fst (withRetry parse fn R d obs) = Rethrown e \<longrightarrow>
              fn (invocations (snd (withRetry parse fn R d obs)) - 1) = Inl e) \<and>
         (\<forall>x. fst (withGenericRetry fn R d obs) \<noteq> TrailingThrow x) \<and>
         0 < invocations (snd (withGenericRetry fn R d obs)) \<and>
         (\<forall>v. fst (withGenericRetry fn R d obs) = Returned v \<longrightarrow>
              fn (invocations (snd (withGenericRetry fn R d obs)) - 1) = Inr v) \<and>
         (\<forall>e. fst (withGenericRetry fn R d obs) = Rethrown e \<longrightarrow>
              fn (invocations (snd (withGenericRetry fn R d obs)) - 1) = Inl e)"
proof -
  from assms have a: "(1::int) \<le> R + 1" by simp
  have "(\<forall>x. fst (retry_loop cls fn R d obs 1 JUndefined trace0) \<noteq> TrailingThrow x) \<and>
        0 < invocations (snd (retry_loop cls fn R d obs 1 JUndefined trace0)) \<and>
        (\<forall>v. fst (retry_loop cls fn R d obs 1 JUndefined trace0) = Returned v \<longrightarrow>
             fn (invocations (snd (retry_loop cls fn R d obs 1 JUndefined trace0)) - 1) = Inr v) \<and>
        (\<forall>e. fst (retry_loop cls fn R d obs 1 JUndefined trace0) = Rethrown e \<longrightarrow>
             fn (invocations (snd (retry_loop cls fn R d obs 1 JUndefined trace0)) - 1) = Inl e)"
    for cls
    using rl_no_trailing [OF a, of cls fn d obs JUndefined trace0]
      rl_returned_iff [of cls fn R d obs 1 JUndefined trace0]
      rl_rethrown [of cls fn R d obs 1 JUndefined trace0]
    by (auto simp: trace0_def)
  then show ?thesis
    unfolding withRetry_unfold withGenericRetry_unfold by blast
qed

lemma withRetry_always_plain:
  "withRetry sample_parse always_plain 3 1000 never_throws =
     (Rethrown plain_error, \<lparr>invocations = 1, observed = [], waits = []\<rparr>)"
  by (simp add: withRetry_def withRetry_loop.simps trace0_def is429_def sample_parse_def
      plain_error_def always_plain_def never_throws_def)

lemma withGenericRetry_always_plain:
  "withGenericRetry always_plain 3 1000 never_throws =
     (Rethrown plain_error,
      \<lparr>invocations = 4,
       observed = [(1, plain_error), (2, plain_error), (3, plain_error)],
       waits = [1000, 1000, 1000]\<rparr>)"
  by (simp add: withGenericRetry_def withGenericRetry_loop.simps trace0_def
      always_plain_def never_throws_def)

theorem trailing_throw_unreachable_witness:
  "(0::int) \<le> 3 \<and>
   fst (withRetry sample_parse always_plain 3 1000 never_throws) = Rethrown plain_error \<and>
   always_plain (invocations (snd (withRetry sample_parse always_plain 3 1000 never_throws)) - 1)
     = Inl plain_error \<and>
   fst (withGenericRetry fails_twice 3 1000 never_throws) = Returned 7 \<and>
   fails_twice (invocations (snd (withGenericRetry fails_twice 3 1000 never_throws)) - 1) = Inr 7"
  using trailing_throw_unreachable [of 3 sample_parse always_plain 1000 never_throws]
    trailing_throw_unreachable [of 3 sample_parse fails_twice 1000 never_throws]
  by (simp add: withRetry_always_plain withGenericRetry_fails_twice always_plain_def
      fails_twice_def)

subsection \<open>The observer\<close>

text \<open>
  C4, as the specification states it: the observer is called \<open>min attempts_used R\<close>
  times. It fails on the first attempt already: with \<open>R = 3\<close> and an operation that
  fails with an error that is not a rate-limit error, \<^verbatim>\<open>withRetry\<close> uses one attempt
  and rethrows, and the observer is not called, while \<open>min 1 3 = 1\<close>.
\<close>

theorem onRetry_count_counterexample:
  "invocations (snd (withRetry sample_parse always_plain 3 1000 never_throws)) = 1 \<and>
   length (observed (snd (withRetry sample_parse always_plain 3 1000 never_throws))) = 0 \<and>
   int (length (observed (snd (withRetry sample_parse always_plain 3 1000 never_throws)))) \<noteq>
     min (int (invocations (snd (withRetry sample_parse always_plain 3 1000 never_throws)))) 3"
  by (simp add: withRetry_always_plain)

text \<open>
  C4, amended. For every retries bound \<open>R \<ge> 0\<close> and every sequence of operation
  results, \<^verbatim>\<open>withRetry\<close> and \<^verbatim>\<open>withGenericRetry\<close> call the observer once after each
  attempt that is followed by a retry: the calls carry the attempt numbers
  \<open>1, 2, \<dots>, m\<close> in this order, each with the error of that attempt; \<open>m \<le> R\<close>; and
  \<open>m\<close> is the number of attempts used less one (the number of attempts used, when the
  call ends because the last observer call threw).
\<close>

theorem onRetry_calls:
  assumes "0 \<le> R"
  shows "(\<exists>m. observed (snd (withRetry parse fn R d obs)) =
                map (\<lambda>i. (1 + int i, projl (fn i))) [0..<m] \<and> int m \<le> R \<and>
              invocations (snd (withRetry parse fn R d obs)) =
                m + (if observer_threw (fst (withRetry parse fn R d obs)) then 0 else 1)) \<and>
         (\<exists>m. observed (snd (withGenericRetry fn R d obs)) =
                map (\<lambda>i. (1 + int i, projl (fn i))) [0..<m] \<and> int m \<le> R \<and>
              invocations (snd (withGenericRetry fn R d obs)) =
                m + (if observer_threw (fst (withGenericRetry fn R d obs)) then 0 else 1))"
proof -
  from assms have a: "(1::int) \<le> R + 1" by simp
  have "\<exists>m. observed (snd (retry_loop cls fn R d obs 1 JUndefined trace0)) =
                map (\<lambda>i. (1 + int i, projl (fn i))) [0..<m] \<and> int m \<le> R \<and>
              invocations (snd (retry_loop cls fn R d obs 1 JUndefined trace0)) =
                m + (if observer_threw (fst (retry_loop cls fn R d obs 1 JUndefined trace0))
                     then 0 else 1)"
    for cls
  proof -
    let ?r = "retry_loop cls fn R d obs 1 JUndefined trace0"
    from rl_observed [OF a, of cls fn d obs JUndefined trace0] obtain m where
      m: "observed (snd ?r) =
            observed trace0 @ map (\<lambda>i. (1 + int i, projl (fn (invocations trace0 + i)))) [0..<m]"
         "invocations (snd ?r) =
            invocations trace0 + m + (if observer_threw (fst ?r) then 0 else 1)"
         "1 + int m \<le> R + 1"
      by blast
    have "observed (snd ?r) = map (\<lambda>i. (1 + int i, projl (fn i))) [0..<m]"
      using m(1) by (simp add: trace0_def)
    moreover have "int m \<le> R" using m(3) by simp
    moreover have "invocations (snd ?r) = m + (if observer_threw (fst ?r) then 0 else 1)"
      using m(2) by (simp add: trace0_def)
    ultimately show ?thesis by blast
  qed
  then show ?thesis
    unfolding withRetry_unfold withGenericRetry_unfold by blast
qed

theorem onRetry_calls_witness:
  "(0::int) \<le> 3 \<and>
   observed (snd (withRetry sample_parse fails_twice 3 1000 never_throws)) =
     [(1, rate_limited), (2, rate_limited)] \<and>
   invocations (snd (withRetry sample_parse fails_twice 3 1000 never_throws)) = 3 \<and>
   \<not> observer_threw (fst (withRetry sample_parse fails_twice 3 1000 never_throws))"
  using onRetry_calls [of 3 sample_parse fails_twice 1000 never_throws]
  by (simp add: withRetry_fails_twice)

subsection \<open>The classification of \<^verbatim>\<open>withRetry\<close>\<close>

text \<open>
  On a rejection value other than \<^verbatim>\<open>null\<close> and \<^verbatim>\<open>undefined\<close> the classification
  gives a verdict: retryable exactly when the message is a string that parses to a
  document whose \<^verbatim>\<open>error.code\<close> is 429.
\<close>

lemma get_prop_total: "e \<noteq> JUndefined \<Longrightarrow> e \<noteq> JNull \<Longrightarrow> \<exists>m. get_prop e p = Some m"
  by (cases e) simp_all

lemma is429_verdict:
  assumes "e \<noteq> JUndefined" "e \<noteq> JNull"
  shows "is429 parse e =
           Some (\<exists>s body. get_prop e ''message'' = Some (JStr s) \<and> parse s = Some body \<and>
                   opt_prop (opt_prop body ''error'') ''code'' = JNum 429)"
proof -
  from get_prop_total [OF assms] obtain m where m: "get_prop e ''message'' = Some m"
    by blast
  show ?thesis
    unfolding is429_def m by (cases m) (auto split: option.splits)
qed

lemma is429_nullish: "is429 parse e = None \<longleftrightarrow> e = JUndefined \<or> e = JNull"
proof
  assume "is429 parse e = None"
  then show "e = JUndefined \<or> e = JNull"
    using is429_verdict [of e parse] by auto
next
  assume "e = JUndefined \<or> e = JNull"
  then show "is429 parse e = None" by (auto simp: is429_def)
qed

text \<open>
  C2. Under the policy of \<^verbatim>\<open>withRetry\<close> a caught error is retryable exactly when its
  message is a string that parses as JSON whose \<^verbatim>\<open>error.code\<close> is 429; every other
  error value is non-retryable, and the classification never throws. The source reads
  \<^verbatim>\<open>e.message\<close> first of all; when the operation rejects with \<^verbatim>\<open>null\<close> or
  \<^verbatim>\<open>undefined\<close> this read raises a TypeError inside the \<^verbatim>\<open>catch\<close> block, and
  \<^verbatim>\<open>withRetry\<close> ends with it: there is no verdict.
\<close>

theorem classification_throws_on_nullish:
  "is429 sample_parse JNull = None \<and> is429 sample_parse JUndefined = None \<and>
   withRetry sample_parse rejects_null 3 1000 never_throws =
     (TypeErrorThrown, \<lparr>invocations = 1, observed = [], waits = []\<rparr>)"
  by (simp add: is429_def withRetry_def withRetry_loop.simps trace0_def rejects_null_def)

subsection \<open>Propagation of the last error\<close>

text \<open>
  When the classification gives a verdict, the error of the last attempt is rethrown as
  it is: by \<^verbatim>\<open>withRetry\<close> when the verdict is non-retryable or the attempts are used up,
  by \<^verbatim>\<open>withGenericRetry\<close> when the attempts are used up.
\<close>

lemma withRetry_propagates:
  assumes "k < invocations (snd (withRetry parse fn R d obs))" "fn k = Inl e"
    "is429 parse e = Some False \<or> (is429 parse e \<noteq> None \<and> R < int k + 1)"
  shows "fst (withRetry parse fn R d obs) = Rethrown e \<and>
         invocations (snd (withRetry parse fn R d obs)) = Suc k"
  using rl_failure_exit [of trace0 k "is429 parse" fn R d obs 1 JUndefined e] assms
  unfolding withRetry_unfold by (simp add: trace0_def add.commute)

lemma withGenericRetry_propagates:
  assumes "k < invocations (snd (withGenericRetry fn R d obs))" "fn k = Inl e" "R < int k + 1"
  shows "fst (withGenericRetry fn R d obs) = Rethrown e \<and>
         invocations (snd (withGenericRetry fn R d obs)) = Suc k"
  using rl_failure_exit [of trace0 k "\<lambda>e. Some True" fn R d obs 1 JUndefined e] assms
  unfolding withGenericRetry_unfold by (simp add: trace0_def add.commute)

text \<open>
  C5. Whenever the caught error is non-retryable or the retry bound is exhausted,
  \<^verbatim>\<open>withRetry\<close> and \<^verbatim>\<open>withGenericRetry\<close> rethrow the last error of the operation. With
  no retries left and an operation that rejects with \<^verbatim>\<open>null\<close>, \<^verbatim>\<open>withGenericRetry\<close>
  rethrows \<^verbatim>\<open>null\<close>, but \<^verbatim>\<open>withRetry\<close> ends with the TypeError of its own read of
  \<^verbatim>\<open>e.message\<close> in place of the operation's error.
\<close>

theorem withRetry_replaces_null_rejection:
  "withGenericRetry rejects_null 0 1000 never_throws =
     (Rethrown JNull, \<lparr>invocations = 1, observed = [], waits = []\<rparr>) \<and>
   withRetry sample_parse rejects_null 0 1000 never_throws =
     (TypeErrorThrown, \<lparr>invocations = 1, observed = [], waits = []\<rparr>)"
  by (simp add: is429_def withRetry_def withRetry_loop.simps withGenericRetry_def
      withGenericRetry_loop.simps trace0_def rejects_null_def)

section \<open>The batch runner\<close>

subsection \<open>One job\<close>

lemma finally_block_fields [simp]:
  "results (finally_block s) = results s"
  "isRunning (finally_block s) = isRunning s"
  "started (finally_block s) = started s"
  "chunks (finally_block s) = chunks s"
  by (simp_all add: finally_block_def)

lemma catch_block_fields [simp]:
  "isRunning (catch_block j m s) = isRunning s"
  "started (catch_block j m s) = started s"
  "chunks (catch_block j m s) = chunks s"
  "length (results (catch_block j m s)) = length (results s)"
  by (simp_all add: catch_block_def)

lemma settle_fields [simp]:
  "isRunning (settle env job s) = (isRunning s \<and> \<not> stopBefore env (fst job))"
  "started (settle env job s) = started s"
  "chunks (settle env job s) = chunks s"
  "length (results (settle env job s)) = length (results s)"
  by (auto simp: settle_def runJob_settle_def split: prod.split op_result.split response.split)

text \<open>A job writes to its own index only.\<close>

lemma settle_frame:
  "i \<noteq> fst job \<Longrightarrow> results (settle env job s) ! i = results s ! i"
  by (auto simp: settle_def runJob_settle_def catch_block_def
      split: prod.split op_result.split response.split)

text \<open>What a job writes to its own index, when the entry there is still the pending one
  it captured.\<close>

lemma settle_own:
  assumes "j < length (results s)" "results s ! j = pending p"
  shows "results (settle env (j, pending p) s) ! j =
           (if isRunning s \<and> \<not> stopBefore env j then recorded p (answer env j)
            else recorded_after_stop p (answer env j))"
proof (cases "answer env j")
  case (Rejected m)
  with assms show ?thesis
    by (simp add: settle_def runJob_settle_def catch_block_def pending_def)
next
  case (Resolved resp)
  with assms show ?thesis
    by (cases resp) (simp_all add: settle_def runJob_settle_def catch_block_def pending_def)
qed

subsection \<open>The calls of a window settling one after the other\<close>

lemma fold_settle_fields [simp]:
  "started (fold (settle env) jobs s) = started s"
  "chunks (fold (settle env) jobs s) = chunks s"
  "length (results (fold (settle env) jobs s)) = length (results s)"
  "isRunning (fold (settle env) jobs s) =
     (isRunning s \<and> (\<forall>job \<in> set jobs. \<not> stopBefore env (fst job)))"
  by (induction jobs arbitrary: s) auto

lemma fold_settle_frame:
  "i \<notin> fst ` set jobs \<Longrightarrow> results (fold (settle env) jobs s) ! i = results s ! i"
  by (induction jobs arbitrary: s) (auto simp: settle_frame)

text \<open>What the calls of the jobs \<open>js\<close>, settling in this order, leave at the index of one of
  them: the record of its answer if the flag is still set when its call settles, that
  is, if the flag was set at the start and is cleared neither before this call nor
  before one that settles earlier.\<close>

lemma fold_settle_own:
  assumes "distinct js"
    and "\<forall>j \<in> set js. j < length (results s) \<and> results s ! j = pending (p j)"
    and "i \<in> set js"
  shows "results (fold (settle env) (map (\<lambda>j. (j, pending (p j))) js) s) ! i =
           (if isRunning s \<and> \<not> stopBefore env i \<and>
               (\<forall>j \<in> set (takeWhile (\<lambda>j. j \<noteq> i) js). \<not> stopBefore env j)
            then recorded (p i) (answer env i)
            else recorded_after_stop (p i) (answer env i))"
  using assms
proof (induction js arbitrary: s)
  case Nil
  then show ?case by simp
next
  case (Cons j js)
  let ?s1 = "settle env (j, pending (p j)) s"
  show ?case
  proof (cases "i = j")
    case True
    have "i \<notin> fst ` set (map (\<lambda>j. (j, pending (p j))) js)"
      using Cons.prems(1) True by (auto simp: image_iff)
    then have "results (fold (settle env) (map (\<lambda>j. (j, pending (p j))) js) ?s1) ! i =
               results ?s1 ! i"
      by (rule fold_settle_frame)
    also have "\<dots> = (if isRunning s \<and> \<not> stopBefore env i then recorded (p i) (answer env i)
            else recorded_after_stop (p i) (answer env i))"
      using Cons.prems(2) True settle_own [of j s "p j" env] by simp
    finally show ?thesis using True by simp
  next
    case False
    with Cons.prems have i: "i \<in> set js" by simp
    have pre: "\<forall>k \<in> set js. k < length (results ?s1) \<and> results ?s1 ! k = pending (p k)"
    proof
      fix k assume k: "k \<in> set js"
      with Cons.prems(1) have "k \<noteq> fst (j, pending (p j))" by auto
      from settle_frame [OF this] k Cons.prems(2)
      show "k < length (results ?s1) \<and> results ?s1 ! k = pending (p k)" by simp
    qed
    from Cons.prems(1) have "distinct js" by simp
    from Cons.IH [OF this pre i] False show ?thesis by auto
  qed
qed


subsection \<open>One window\<close>

lemma start_all_running:
  "isRunning s \<Longrightarrow>
   start_all chunk s = (s\<lparr>started := started s @ chunk\<rparr>, map (\<lambda>j. (j, results s ! j)) chunk)"
proof (induction chunk arbitrary: s)
  case Nil
  then show ?case by simp
next
  case (Cons j chunk)
  from Cons.prems have "start_all chunk (s\<lparr>started := started s @ [j]\<rparr>) =
      (s\<lparr>started := started s @ [j]\<rparr>\<lparr>started := started (s\<lparr>started := started s @ [j]\<rparr>) @ chunk\<rparr>,
       map (\<lambda>k. (k, results (s\<lparr>started := started s @ [j]\<rparr>) ! k)) chunk)"
    by (intro Cons.IH) simp
  with Cons.prems show ?case by (simp add: runJob_start_def)
qed

lemma insort_key_map:
  "insort_key f (g x) (map g xs) = map g (insort_key (\<lambda>y. f (g y)) x xs)"
  by (induction xs) simp_all

lemma sort_key_map:
  "sort_key f (map g xs) = map g (sort_key (\<lambda>y. f (g y)) xs)"
  by (induction xs) (simp_all add: insort_key_map)

lemma settle_order_set [simp]: "set (settle_order env chunk) = set chunk"
  by (simp add: settle_order_def)

lemma settle_order_distinct [simp]: "distinct (settle_order env chunk) = distinct chunk"
  by (simp add: settle_order_def)

lemma run_window_running:
  assumes "isRunning s" "\<forall>j \<in> set chunk. results s ! j = pending (p j)"
  shows "run_window env chunk s =
           fold (settle env) (map (\<lambda>j. (j, pending (p j))) (settle_order env chunk))
             (s\<lparr>chunks := chunks s @ [chunk], started := started s @ chunk\<rparr>)"
proof -
  let ?s0 = "s\<lparr>chunks := chunks s @ [chunk]\<rparr>"
  have 1: "start_all chunk ?s0 =
             (s\<lparr>chunks := chunks s @ [chunk], started := started s @ chunk\<rparr>,
              map (\<lambda>j. (j, results s ! j)) chunk)"
    using assms(1) by (simp add: start_all_running)
  have 2: "sort_key (\<lambda>job. rank env (fst job)) (map (\<lambda>j. (j, results s ! j)) chunk) =
           map (\<lambda>j. (j, results s ! j)) (settle_order env chunk)"
    by (simp add: sort_key_map settle_order_def)
  have 3: "map (\<lambda>j. (j, results s ! j)) (settle_order env chunk) =
           map (\<lambda>j. (j, pending (p j))) (settle_order env chunk)"
    using assms(2) by simp
  show ?thesis
    unfolding run_window_def 1 prod.case 2 3 ..
qed

lemma run_window_effect:
  assumes "isRunning s" "distinct chunk"
    and "\<forall>j \<in> set chunk. j < length (results s) \<and> results s ! j = pending (p j)"
  shows "started (run_window env chunk s) = started s @ chunk"
    and "chunks (run_window env chunk s) = chunks s @ [chunk]"
    and "length (results (run_window env chunk s)) = length (results s)"
    and "isRunning (run_window env chunk s) = (\<forall>j \<in> set chunk. \<not> stopBefore env j)"
    and "\<And>i. i \<notin> set chunk \<Longrightarrow> results (run_window env chunk s) ! i = results s ! i"
    and "\<And>i. i \<in> set chunk \<Longrightarrow> results (run_window env chunk s) ! i =
           (if stopped_when env chunk i then recorded_after_stop (p i) (answer env i)
            else recorded (p i) (answer env i))"
proof -
  let ?s0 = "s\<lparr>chunks := chunks s @ [chunk], started := started s @ chunk\<rparr>"
  have eq: "run_window env chunk s =
      fold (settle env) (map (\<lambda>j. (j, pending (p j))) (settle_order env chunk)) ?s0"
    using assms(1,3) by (intro run_window_running) simp_all
  show "started (run_window env chunk s) = started s @ chunk"
    and "chunks (run_window env chunk s) = chunks s @ [chunk]"
    and "length (results (run_window env chunk s)) = length (results s)"
    unfolding eq by simp_all
  show "isRunning (run_window env chunk s) = (\<forall>j \<in> set chunk. \<not> stopBefore env j)"
    unfolding eq using assms(1) by simp
  show "results (run_window env chunk s) ! i = results s ! i" if "i \<notin> set chunk" for i
  proof -
    from that have "i \<notin> fst ` set (map (\<lambda>j. (j, pending (p j))) (settle_order env chunk))"
      by (auto simp: image_iff)
    from fold_settle_frame [OF this] show ?thesis unfolding eq by simp
  qed
  show "results (run_window env chunk s) ! i =
           (if stopped_when env chunk i then recorded_after_stop (p i) (answer env i)
            else recorded (p i) (answer env i))" if "i \<in> set chunk" for i
  proof -
    have "results (fold (settle env) (map (\<lambda>j. (j, pending (p j))) (settle_order env chunk)) ?s0) ! i =
           (if isRunning ?s0 \<and> \<not> stopBefore env i \<and>
               (\<forall>j \<in> set (takeWhile (\<lambda>j. j \<noteq> i) (settle_order env chunk)). \<not> stopBefore env j)
            then recorded (p i) (answer env i)
            else recorded_after_stop (p i) (answer env i))"
      using assms(2,3) that by (intro fold_settle_own) simp_all
    then show ?thesis
      unfolding eq using assms(1) by (auto simp: stopped_when_def)
  qed
qed

subsection \<open>The loop over the windows\<close>

text \<open>The loop ends when the concurrency is positive; a property of its run is shown for
  the three ways an iteration goes.\<close>

lemma window_loop_rule [consumes 1, case_names finished halted step]:
  assumes "0 < C"
    and finished: "\<And>i s. n \<le> i \<Longrightarrow> P i s s"
    and halted: "\<And>i s. i < n \<Longrightarrow> \<not> isRunning s \<Longrightarrow> P i s s"
    and step: "\<And>i s s'. i < n \<Longrightarrow> isRunning s \<Longrightarrow>
                 P (i + C) (run_window env [i..<min (i + C) n] s) s' \<Longrightarrow> P i s s'"
  shows "\<exists>s'. window_loop env C n i s = Some s' \<and> P i s s'"
proof (induction "n - i" arbitrary: i s rule: less_induct)
  case less
  show ?case
  proof (cases "i < n")
    case False
    then show ?thesis using finished [of i s] by (subst window_loop.simps) simp
  next
    case True
    show ?thesis
    proof (cases "isRunning s")
      case False
      with True show ?thesis using halted [of i s] by (subst window_loop.simps) simp
    next
      case running: True
      let ?s1 = "run_window env [i..<min (i + C) n] s"
      from True assms(1) have "n - (i + C) < n - i" by simp
      from less [OF this] obtain s' where
        s': "window_loop env C n (i + C) ?s1 = Some s'" "P (i + C) ?s1 s'"
        by blast
      have "window_loop env C n i s = Some s'"
        using True running s'(1) by (subst window_loop.simps) simp
      with step [OF True running s'(2)] show ?thesis by simp
    qed
  qed
qed

lemma window_set: "set (window C n w) = {j. w * C \<le> j \<and> j < w * C + C \<and> j < n}"
  by (auto simp: window_def)

lemma window_distinct [simp]: "distinct (window C n w)"
  by (simp add: window_def)

lemma run_post_refl:
  assumes "length (results s) = n" "\<forall>j. k * C \<le> j \<and> j < n \<longrightarrow> results s ! j = pending (p j)"
    "n \<le> k * C \<or> \<not> isRunning s"
  shows "run_post env C n p k s s k"
  using assms by (auto simp: run_post_def)

lemma run_post_step:
  assumes C: "0 < C" and k: "k * C < n" and run: "isRunning s"
    and len: "length (results s) = n"
    and pend: "\<forall>j. k * C \<le> j \<and> j < n \<longrightarrow> results s ! j = pending (p j)"
    and post: "run_post env C n p (Suc k) (run_window env (window C n k) s) s' k1"
  shows "run_post env C n p k s s' k1"
proof -
  let ?s1 = "run_window env (window C n k) s"
  have pre: "\<forall>j \<in> set (window C n k). j < length (results s) \<and> results s ! j = pending (p j)"
    using len pend by (auto simp: window_set)
  note eff = run_window_effect [OF run window_distinct pre, where env = env]
  from post have k1: "Suc k \<le> k1" by (simp add: run_post_def)
  then have upt: "[k..<k1] = k # [Suc k..<k1]" by (simp add: upt_conv_Cons)
  have 1: "chunks s' = chunks s @ map (window C n) [k..<k1]"
    using post eff(2) by (simp add: run_post_def upt)
  have 2: "started s' = started s @ concat (map (window C n) [k..<k1])"
    using post eff(1) by (simp add: run_post_def upt)
  have 3: "length (results s') = n"
    using post by (simp add: run_post_def)
  have keep: "results s' ! j = results ?s1 ! j" if "j < Suc k * C" for j
    using post that by (simp add: run_post_def)
  have 4: "\<forall>j < k * C. results s' ! j = results s ! j"
  proof (intro allI impI)
    fix j assume j: "j < k * C"
    then have "j \<notin> set (window C n k)" by (simp add: window_set)
    with eff(5) [of j] keep [of j] j show "results s' ! j = results s ! j" by simp
  qed
  have 5: "\<forall>w j. k \<le> w \<and> w < k1 \<and> j \<in> set (window C n w) \<longrightarrow>
        results s' ! j = outcome env (window C n w) (p j) j"
  proof (intro allI impI)
    fix w j assume a: "k \<le> w \<and> w < k1 \<and> j \<in> set (window C n w)"
    show "results s' ! j = outcome env (window C n w) (p j) j"
    proof (cases "w = k")
      case True
      with a have j: "j \<in> set (window C n k)" by simp
      then have "j < Suc k * C" by (simp add: window_set)
      with keep [of j] eff(6) [OF j] True show ?thesis by (simp add: outcome_def)
    next
      case False
      with a have "Suc k \<le> w" by simp
      with post a show ?thesis by (simp add: run_post_def)
    qed
  qed
  have 6: "\<forall>j. k1 * C \<le> j \<and> j < n \<longrightarrow> results s' ! j = pending (p j)"
    using post by (simp add: run_post_def)
  have running1: "isRunning ?s1 = (\<not> stop_in env (window C n k))"
    using eff(4) by (simp add: stop_in_def)
  have 7: "\<forall>w. k \<le> w \<and> Suc w < k1 \<longrightarrow> \<not> stop_in env (window C n w)"
  proof (intro allI impI)
    fix w assume a: "k \<le> w \<and> Suc w < k1"
    show "\<not> stop_in env (window C n w)"
    proof (cases "w = k")
      case True
      with a have "Suc k < k1" by simp
      with post have "isRunning ?s1" by (simp add: run_post_def)
      with running1 True show ?thesis by simp
    next
      case False
      with a have "Suc k \<le> w \<and> Suc w < k1" by simp
      with post show ?thesis by (simp add: run_post_def)
    qed
  qed
  have 8: "k1 * C < n \<longrightarrow> (k1 = k \<and> \<not> isRunning s) \<or> (k < k1 \<and> stop_in env (window C n (k1 - 1)))"
  proof
    assume "k1 * C < n"
    with post have "(k1 = Suc k \<and> \<not> isRunning ?s1) \<or> (Suc k < k1 \<and> stop_in env (window C n (k1 - 1)))"
      by (simp add: run_post_def)
    with running1 k1
    show "(k1 = k \<and> \<not> isRunning s) \<or> (k < k1 \<and> stop_in env (window C n (k1 - 1)))"
      by auto
  qed
  have 9: "k < k1 \<longrightarrow> isRunning s \<and> (k1 - 1) * C < n"
  proof (cases "k1 = Suc k")
    case True
    with run k show ?thesis by simp
  next
    case False
    with k1 have "Suc k < k1" by simp
    with post run show ?thesis by (simp add: run_post_def)
  qed
  from k1 have 0: "k \<le> k1" by simp
  show ?thesis
    unfolding run_post_def by (intro conjI) (rule 0 1 2 3 4 5 6 7 8 9)+
qed

lemma window_loop_run:
  assumes "0 < C"
  shows "\<exists>s'. window_loop env C n i s = Some s' \<and>
           (\<forall>k. i = k * C \<and> length (results s) = n \<and>
                 (\<forall>j. k * C \<le> j \<and> j < n \<longrightarrow> results s ! j = pending (p j)) \<longrightarrow>
              (\<exists>k1. run_post env C n p k s s' k1))"
proof (rule window_loop_rule [OF assms, where P = "\<lambda>i s s'. \<forall>k. i = k * C \<and> length (results s) = n \<and>
                 (\<forall>j. k * C \<le> j \<and> j < n \<longrightarrow> results s ! j = pending (p j)) \<longrightarrow>
              (\<exists>k1. run_post env C n p k s s' k1)"])
  fix i and s :: state
  assume fin: "n \<le> i"
  show "\<forall>k. i = k * C \<and> length (results s) = n \<and>
                 (\<forall>j. k * C \<le> j \<and> j < n \<longrightarrow> results s ! j = pending (p j)) \<longrightarrow>
              (\<exists>k1. run_post env C n p k s s k1)"
  proof (intro allI impI)
    fix k
    assume a: "i = k * C \<and> length (results s) = n \<and>
                 (\<forall>j. k * C \<le> j \<and> j < n \<longrightarrow> results s ! j = pending (p j))"
    have "run_post env C n p k s s k"
    proof (rule run_post_refl)
      show "length (results s) = n" using a by simp
      show "\<forall>j. k * C \<le> j \<and> j < n \<longrightarrow> results s ! j = pending (p j)" using a by simp
      show "n \<le> k * C \<or> \<not> isRunning s" using a fin by simp
    qed
    then show "\<exists>k1. run_post env C n p k s s k1" ..
  qed
next
  fix i and s :: state
  assume halted: "i < n" "\<not> isRunning s"
  show "\<forall>k. i = k * C \<and> length (results s) = n \<and>
                 (\<forall>j. k * C \<le> j \<and> j < n \<longrightarrow> results s ! j = pending (p j)) \<longrightarrow>
              (\<exists>k1. run_post env C n p k s s k1)"
  proof (intro allI impI)
    fix k
    assume a: "i = k * C \<and> length (results s) = n \<and>
                 (\<forall>j. k * C \<le> j \<and> j < n \<longrightarrow> results s ! j = pending (p j))"
    have "run_post env C n p k s s k"
    proof (rule run_post_refl)
      show "length (results s) = n" using a by simp
      show "\<forall>j. k * C \<le> j \<and> j < n \<longrightarrow> results s ! j = pending (p j)" using a by simp
      show "n \<le> k * C \<or> \<not> isRunning s" using halted by simp
    qed
    then show "\<exists>k1. run_post env C n p k s s k1" ..
  qed
next
  fix i and s s' :: state
  assume i: "i < n" and run: "isRunning s"
    and IH: "\<forall>k. i + C = k * C \<and> length (results (run_window env [i..<min (i + C) n] s)) = n \<and>
                 (\<forall>j. k * C \<le> j \<and> j < n \<longrightarrow>
                    results (run_window env [i..<min (i + C) n] s) ! j = pending (p j)) \<longrightarrow>
              (\<exists>k1. run_post env C n p k (run_window env [i..<min (i + C) n] s) s' k1)"
  show "\<forall>k. i = k * C \<and> length (results s) = n \<and>
                 (\<forall>j. k * C \<le> j \<and> j < n \<longrightarrow> results s ! j = pending (p j)) \<longrightarrow>
              (\<exists>k1. run_post env C n p k s s' k1)"
  proof (intro allI impI)
    fix k
    assume a: "i = k * C \<and> length (results s) = n \<and>
                 (\<forall>j. k * C \<le> j \<and> j < n \<longrightarrow> results s ! j = pending (p j))"
    let ?s1 = "run_window env (window C n k) s"
    have w: "[i..<min (i + C) n] = window C n k" using a by (simp add: window_def)
    have pre: "\<forall>j \<in> set (window C n k). j < length (results s) \<and> results s ! j = pending (p j)"
      using a by (auto simp: window_set)
    from i a have k: "k * C < n" by simp
    note eff = run_window_effect [OF run window_distinct pre, where env = env]
    have len1: "length (results ?s1) = n" using eff(3) a by simp
    have pend1: "\<forall>j. Suc k * C \<le> j \<and> j < n \<longrightarrow> results ?s1 ! j = pending (p j)"
    proof (intro allI impI)
      fix j assume j: "Suc k * C \<le> j \<and> j < n"
      then have "j \<notin> set (window C n k)" by (simp add: window_set)
      from eff(5) [OF this] a j show "results ?s1 ! j = pending (p j)" by simp
    qed
    have next_i: "i + C = Suc k * C" using a by simp
    from IH [unfolded w]
    have "i + C = Suc k * C \<and> length (results ?s1) = n \<and>
            (\<forall>j. Suc k * C \<le> j \<and> j < n \<longrightarrow> results ?s1 ! j = pending (p j)) \<longrightarrow>
          (\<exists>k1. run_post env C n p (Suc k) ?s1 s' k1)"
      by (rule spec)
    moreover have "i + C = Suc k * C \<and> length (results ?s1) = n \<and>
            (\<forall>j. Suc k * C \<le> j \<and> j < n \<longrightarrow> results ?s1 ! j = pending (p j))"
      by (intro conjI) (rule next_i len1 pend1)+
    ultimately have "\<exists>k1. run_post env C n p (Suc k) ?s1 s' k1" by (rule mp)
    then obtain k1 where post: "run_post env C n p (Suc k) ?s1 s' k1" ..
    have "run_post env C n p k s s' k1"
    proof (rule run_post_step [OF assms k run _ _ post])
      show "length (results s) = n" using a by simp
      show "\<forall>j. k * C \<le> j \<and> j < n \<longrightarrow> results s ! j = pending (p j)" using a by simp
    qed
    then show "\<exists>k1. run_post env C n p k s s' k1" ..
  qed
qed

subsection \<open>The run in closed form\<close>

lemma window_count_less: "0 < C \<Longrightarrow> w < window_count C n \<longleftrightarrow> w * C < n"
proof -
  assume C: "0 < C"
  have "w < (n + C - 1) div C \<longleftrightarrow> Suc w \<le> (n + C - 1) div C" by auto
  also have "\<dots> \<longleftrightarrow> Suc w * C \<le> n + C - 1"
    using C by (simp add: less_eq_div_iff_mult_less_eq)
  also have "\<dots> \<longleftrightarrow> w * C < n" using C by auto
  finally show ?thesis by (simp add: window_count_def)
qed

lemma window_of_job:
  assumes "0 < C" "j < n"
  shows "j \<in> set (window C n (j div C))" "j div C < window_count C n"
proof -
  have "j div C * C \<le> j" by simp
  moreover have "j < j div C * C + C"
    using assms(1) by (metis add.commute dividend_less_div_times mult.commute)
  ultimately show "j \<in> set (window C n (j div C))"
    using assms(2) by (simp add: window_set)
  from \<open>j div C * C \<le> j\<close> assms(2) have "j div C * C < n" by (rule le_less_trans)
  with assms(1) show "j div C < window_count C n"
    by (simp add: window_count_less)
qed


lemma windows_run_unique:
  assumes C: "0 < C"
    and a: "\<forall>w. Suc w < k1 \<longrightarrow> \<not> stop_in env (window C n w)"
    and b: "k1 * C < n \<longrightarrow> 0 < k1 \<and> stop_in env (window C n (k1 - 1))"
    and c: "0 < k1 \<longrightarrow> (k1 - 1) * C < n"
  shows "windows_run env C n = k1"
proof -
  let ?W = "window_count C n"
  let ?P = "\<lambda>w. stop_in env (window C n w)"
  have le: "k1 \<le> ?W"
  proof (cases "k1 = 0")
    case False
    with c have "k1 - 1 < ?W" using C by (simp add: window_count_less)
    with False show ?thesis by simp
  qed simp
  show ?thesis
  proof (cases "find ?P [0..<?W]")
    case None
    then have none: "\<forall>w < ?W. \<not> ?P w" by (auto simp: find_None_iff)
    have "\<not> k1 < ?W"
    proof
      assume lt: "k1 < ?W"
      then have "k1 * C < n" using C by (simp add: window_count_less)
      with b have "0 < k1" "?P (k1 - 1)" by simp_all
      with none lt show False by simp
    qed
    with le have "k1 = ?W" by simp
    with None show ?thesis by (simp add: windows_run_def)
  next
    case (Some w0)
    then obtain i where i: "i < length [0..<?W]" "?P ([0..<?W] ! i)" "w0 = [0..<?W] ! i"
      "\<forall>j<i. \<not> ?P ([0..<?W] ! j)"
      unfolding find_Some_iff by blast
    then have w0: "w0 < ?W" "?P w0" "\<forall>j<w0. \<not> ?P j" by auto
    have "\<not> k1 \<le> w0"
    proof
      assume le0: "k1 \<le> w0"
      with w0(1) have "k1 < ?W" by simp
      then have "k1 * C < n" using C by (simp add: window_count_less)
      with b have "0 < k1" "?P (k1 - 1)" by simp_all
      with w0(3) le0 show False by simp
    qed
    moreover have "\<not> Suc w0 < k1" using a w0(2) by blast
    ultimately have "k1 = Suc w0" by simp
    with Some show ?thesis by (simp add: windows_run_def)
  qed
qed

lemma upt_split: "i \<le> j \<Longrightarrow> j \<le> k \<Longrightarrow> [i..<j] @ [j..<k] = [i..<k]"
  using upt_add_eq_append [of i j "k - j"] by simp

lemma concat_windows:
  "0 < C \<Longrightarrow> concat (map (window C n) [0..<k]) = [0..<min (k * C) n]"
proof (induction k)
  case 0
  then show ?case by simp
next
  case (Suc k)
  have "[0..<min (k * C) n] @ [k * C..<min (k * C + C) n] = [0..<min (Suc k * C) n]"
  proof (cases "k * C \<le> n")
    case True
    then have "[0..<k * C] @ [k * C..<min (k * C + C) n] = [0..<min (k * C + C) n]"
      by (intro upt_split) simp_all
    with True show ?thesis by (simp add: add.commute min_def)
  next
    case False
    then show ?thesis by (simp add: min_def)
  qed
  with Suc show ?case by (simp add: window_def)
qed

lemma generatePoses_closed_form:
  assumes C: "0 < C"
  shows "\<exists>s. generatePoses env C prompts = Some s \<and>
           chunks s = map (window C (length prompts)) [0..<windows_run env C (length prompts)] \<and>
           started s = [0..<min (windows_run env C (length prompts) * C) (length prompts)] \<and>
           results s = map (final_result env C prompts) [0..<length prompts] \<and>
           \<not> isRunning s"
proof -
  let ?n = "length prompts"
  let ?s0 = "\<lparr>results = map pending prompts, isRunning = True, completedJobs = 0,
           started = [], chunks = []\<rparr>"
  let ?p = "\<lambda>j. prompts ! j"
  from window_loop_run [OF C, of env ?n 0 ?s0 ?p] obtain s' where
    s': "window_loop env C ?n 0 ?s0 = Some s'"
    and all: "\<forall>k. 0 = k * C \<and> length (results ?s0) = ?n \<and>
                 (\<forall>j. k * C \<le> j \<and> j < ?n \<longrightarrow> results ?s0 ! j = pending (?p j)) \<longrightarrow>
              (\<exists>k1. run_post env C ?n ?p k ?s0 s' k1)"
    by blast
  from all have "0 = 0 * C \<and> length (results ?s0) = ?n \<and>
                 (\<forall>j. 0 * C \<le> j \<and> j < ?n \<longrightarrow> results ?s0 ! j = pending (?p j)) \<longrightarrow>
              (\<exists>k1. run_post env C ?n ?p 0 ?s0 s' k1)"
    by (rule spec)
  then have "\<exists>k1. run_post env C ?n ?p 0 ?s0 s' k1" by simp
  then obtain k1 where post: "run_post env C ?n ?p 0 ?s0 s' k1" ..
  have k1: "windows_run env C ?n = k1"
  proof (rule windows_run_unique [OF C])
    show "\<forall>w. Suc w < k1 \<longrightarrow> \<not> stop_in env (window C ?n w)"
      using post by (simp add: run_post_def)
    show "k1 * C < ?n \<longrightarrow> 0 < k1 \<and> stop_in env (window C ?n (k1 - 1))"
      using post by (simp add: run_post_def)
    show "0 < k1 \<longrightarrow> (k1 - 1) * C < ?n"
      using post by (simp add: run_post_def)
  qed
  have chunks: "chunks s' = map (window C ?n) [0..<k1]"
    using post by (simp add: run_post_def)
  have started: "started s' = [0..<min (k1 * C) ?n]"
    using post concat_windows [OF C, of ?n k1] by (simp add: run_post_def)
  have len: "length (results s') = ?n"
    using post by (simp add: run_post_def)
  have res: "results s' = map (final_result env C prompts) [0..<?n]"
  proof (rule nth_equalityI)
    show "length (results s') = length (map (final_result env C prompts) [0..<?n])"
      using len by simp
  next
    fix j assume "j < length (results s')"
    with len have j: "j < ?n" by simp
    show "results s' ! j = map (final_result env C prompts) [0..<?n] ! j"
    proof (cases "j < k1 * C")
      case True
      have "j div C < k1"
        using True C by (simp add: less_mult_imp_div_less)
      moreover note window_of_job(1) [OF C j]
      ultimately have "results s' ! j = outcome env (window C ?n (j div C)) (?p j) j"
        using post by (simp add: run_post_def)
      with True j show ?thesis by (simp add: final_result_def k1)
    next
      case False
      with j post have "results s' ! j = pending (?p j)" by (simp add: run_post_def)
      with False j show ?thesis by (simp add: final_result_def k1)
    qed
  qed
  show ?thesis
    using s' chunks started res by (simp add: generatePoses_def k1)
qed

lemma windows_run_props:
  assumes C: "0 < C"
  shows "windows_run env C n \<le> window_count C n"
    and "\<And>w. Suc w < windows_run env C n \<Longrightarrow> \<not> stop_in env (window C n w)"
    and "windows_run env C n < window_count C n \<Longrightarrow>
           0 < windows_run env C n \<and> stop_in env (window C n (windows_run env C n - 1))"
proof -
  let ?W = "window_count C n"
  let ?P = "\<lambda>w. stop_in env (window C n w)"
  have "windows_run env C n \<le> ?W \<and>
        (\<forall>w. Suc w < windows_run env C n \<longrightarrow> \<not> ?P w) \<and>
        (windows_run env C n < ?W \<longrightarrow> 0 < windows_run env C n \<and> ?P (windows_run env C n - 1))"
  proof (cases "find ?P [0..<?W]")
    case None
    then have "\<forall>w < ?W. \<not> ?P w" by (auto simp: find_None_iff)
    with None show ?thesis by (simp add: windows_run_def)
  next
    case (Some w0)
    then obtain i where i: "i < length [0..<?W]" "?P ([0..<?W] ! i)" "w0 = [0..<?W] ! i"
      "\<forall>j<i. \<not> ?P ([0..<?W] ! j)"
      unfolding find_Some_iff by blast
    then have w0: "w0 < ?W" "?P w0" "\<forall>j<w0. \<not> ?P j" by auto
    with Some show ?thesis by (simp add: windows_run_def)
  qed
  then show "windows_run env C n \<le> window_count C n"
    and "\<And>w. Suc w < windows_run env C n \<Longrightarrow> \<not> stop_in env (window C n w)"
    and "windows_run env C n < window_count C n \<Longrightarrow>
           0 < windows_run env C n \<and> stop_in env (window C n (windows_run env C n - 1))"
    by blast+
qed

lemma window_count_covers: "0 < C \<Longrightarrow> n \<le> window_count C n * C"
  using window_count_less [of C "window_count C n" n] by simp

lemma windows_run_no_stop:
  assumes "0 < C" "\<forall>j. \<not> stopBefore env j"
  shows "windows_run env C n = window_count C n"
proof -
  from assms(2) have "\<not> stop_in env chunk" for chunk by (simp add: stop_in_def)
  with windows_run_props(1,3) [OF assms(1), of env n] show ?thesis by fastforce
qed




lemma not_stopped_when: "\<forall>j. \<not> stopBefore env j \<Longrightarrow> \<not> stopped_when env chunk i"
  by (simp add: stopped_when_def)

lemma recorded_after_stop_cases:
  "recorded_after_stop p r = pending p \<or> recorded_after_stop p r = recorded p r"
  by (cases r) simp_all

lemma final_result_cases:
  "final_result env C prompts j = pending (prompts ! j) \<or>
   final_result env C prompts j = recorded (prompts ! j) (answer env j)"
  using recorded_after_stop_cases [of "prompts ! j" "answer env j"]
  by (auto simp: final_result_def outcome_def)

lemma final_result_no_stop:
  assumes "0 < C" "\<forall>j. \<not> stopBefore env j" "j < length prompts"
  shows "final_result env C prompts j = recorded (prompts ! j) (answer env j)"
proof -
  have "j < window_count C (length prompts) * C"
    using window_count_covers [OF assms(1), of "length prompts"] assms(3) by simp
  then show ?thesis
    using assms by (simp add: final_result_def outcome_def windows_run_no_stop not_stopped_when)
qed

subsection \<open>Rejections with any value\<close>

text \<open>The property \<^verbatim>\<open>message\<close> can be read of every value but \<^verbatim>\<open>null\<close> and \<^verbatim>\<open>undefined\<close>.\<close>

lemma get_prop_message:
  "e \<noteq> JNull \<Longrightarrow> e \<noteq> JUndefined \<Longrightarrow> get_prop e p = Some (opt_prop e p)"
  by (cases e) simp_all

text \<open>As long as no call rejects with \<^verbatim>\<open>null\<close> or \<^verbatim>\<open>undefined\<close>, no promise of \<^verbatim>\<open>runJob\<close> is
  rejected, and the run is the run of the runner that sees each rejection through its
  message: job by job, window by window.\<close>

lemma runJob_settle_call_seen:
  assumes "r \<noteq> CallRejected JNull" "r \<noteq> CallRejected JUndefined"
  shows "runJob_settle_call r job s = (runJob_settle (seen r) job s, False)"
proof (cases r)
  case (CallRejected e)
  with assms have "e \<noteq> JNull" "e \<noteq> JUndefined" by auto
  from get_prop_message [OF this, of "''message''"] CallRejected show ?thesis
    by (simp add: runJob_settle_call_def runJob_settle_def split: prod.splits del: opt_prop.simps)
next
  case (CallResolved resp)
  then show ?thesis by (simp add: runJob_settle_call_def)
qed

lemma settle_call_seen:
  assumes "no_nullish_rejection env"
  shows "settle_call env job (s, rejected) = (settle (seen_env env) job s, rejected)"
proof -
  from assms have "call env (fst job) \<noteq> CallRejected JNull"
    "call env (fst job) \<noteq> CallRejected JUndefined"
    by (simp_all add: no_nullish_rejection_def)
  from runJob_settle_call_seen [OF this] show ?thesis
    by (simp add: settle_call_def settle_def seen_env_def)
qed

lemma fold_settle_call_seen:
  assumes "no_nullish_rejection env"
  shows "fold (settle_call env) jobs (s, rejected) = (fold (settle (seen_env env)) jobs s, rejected)"
  by (induction jobs arbitrary: s) (simp_all add: settle_call_seen [OF assms])

lemma run_window_call_seen:
  assumes "no_nullish_rejection env"
  shows "run_window_call env chunk s = (run_window (seen_env env) chunk s, False)"
proof -
  have rank: "rank (seen_env env) = call_rank env" by (simp add: seen_env_def)
  show ?thesis
    unfolding run_window_call_def run_window_def rank
    by (simp add: fold_settle_call_seen [OF assms] split: prod.splits)
qed

lemma window_loop_call_seen:
  assumes "0 < C" "no_nullish_rejection env"
  shows "window_loop_call env C n i s =
         map_option (\<lambda>s'. (s', False)) (window_loop (seen_env env) C n i s)"
proof (induction "n - i" arbitrary: i s rule: less_induct)
  case less
  show ?case
  proof (cases "i < n \<and> isRunning s")
    case True
    then have "n - (i + C) < n - i" using assms(1) by arith
    from less [OF this] True show ?thesis
      by (subst window_loop_call.simps, subst window_loop.simps)
         (simp add: run_window_call_seen [OF assms(2)])
  next
    case False
    then show ?thesis
      by (subst window_loop_call.simps, subst window_loop.simps) auto
  qed
qed

lemma generatePoses_call_seen:
  assumes "0 < C" "no_nullish_rejection env"
  shows "generatePoses_call env C prompts =
         map_option (\<lambda>s. (s, Returns)) (generatePoses (seen_env env) C prompts)"
  by (simp add: generatePoses_call_def generatePoses_def window_loop_call_seen [OF assms]
      option.map_comp comp_def)

lemma seen_env_fields [simp]:
  "rank (seen_env env) = call_rank env"
  "stopBefore (seen_env env) = call_stopBefore env"
  "answer (seen_env env) j = seen (call env j)"
  by (simp_all add: seen_env_def)

lemma seen_env_update:
  "seen_env (env\<lparr>call := (call env)(i := r)\<rparr>) =
   (seen_env env)\<lparr>answer := (answer (seen_env env))(i := seen r)\<rparr>"
  by (auto simp: seen_env_def)

lemma no_nullish_rejection_update:
  assumes "no_nullish_rejection env" "r \<noteq> CallRejected JNull" "r \<noteq> CallRejected JUndefined"
  shows "no_nullish_rejection (env\<lparr>call := (call env)(i := r)\<rparr>)"
  using assms by (simp add: no_nullish_rejection_def)



subsection \<open>The windows of a run\<close>


lemma status_recorded [simp]: "status (recorded p r) \<noteq> Pending"
proof (cases r)
  case (Resolved resp)
  then show ?thesis by (cases resp) simp_all
qed simp




subsection \<open>Outcomes by index\<close>

lemma prompt_recorded [simp]: "prompt (recorded p r) = p"
proof (cases r)
  case (Resolved resp)
  then show ?thesis by (cases resp) simp_all
qed simp

lemma prompt_pending [simp]: "prompt (pending p) = p"
  by (simp add: pending_def)

text \<open>
  C7. For every run and every index \<open>i\<close>, the entry \<open>results[i]\<close> is the outcome of job
  \<open>i\<close>: it carries prompt \<open>i\<close>, and it is either still the pending entry or what
  \<^verbatim>\<open>runJob\<close> records for the answer to the call of job \<open>i\<close>; when the flag is not
  cleared, the final array is, index by index, the record of each job's own answer,
  whatever the order in which the calls settle.
\<close>

theorem results_mirror_jobs:
  assumes "0 < C"
  shows "\<exists>s. generatePoses env C prompts = Some s \<and>
           length (results s) = length prompts \<and>
           (\<forall>i < length prompts.
              prompt (results s ! i) = prompts ! i \<and>
              (results s ! i = pending (prompts ! i) \<or>
               results s ! i = recorded (prompts ! i) (answer env i))) \<and>
           ((\<forall>j. \<not> stopBefore env j) \<longrightarrow>
              results s = map (\<lambda>i. recorded (prompts ! i) (answer env i)) [0..<length prompts] \<and>
              (\<forall>r. map_option results (generatePoses (env\<lparr>rank := r\<rparr>) C prompts) =
                    Some (results s)))"
proof -
  let ?n = "length prompts"
  from generatePoses_closed_form [OF assms, of env prompts] obtain s where
    s: "generatePoses env C prompts = Some s"
    and res: "results s = map (final_result env C prompts) [0..<?n]"
    by blast
  have 1: "length (results s) = ?n" using res by simp
  have 2: "\<forall>i < ?n. prompt (results s ! i) = prompts ! i \<and>
              (results s ! i = pending (prompts ! i) \<or>
               results s ! i = recorded (prompts ! i) (answer env i))"
  proof (intro allI impI)
    fix i assume i: "i < ?n"
    then have "results s ! i = final_result env C prompts i" using res by simp
    with final_result_cases [of env C prompts i]
    show "prompt (results s ! i) = prompts ! i \<and>
              (results s ! i = pending (prompts ! i) \<or>
               results s ! i = recorded (prompts ! i) (answer env i))"
      by auto
  qed
  have 3: "results s = map (\<lambda>i. recorded (prompts ! i) (answer env i)) [0..<?n] \<and>
           (\<forall>r. map_option results (generatePoses (env\<lparr>rank := r\<rparr>) C prompts) = Some (results s))"
    if quiet: "\<forall>j. \<not> stopBefore env j"
  proof
    show eq: "results s = map (\<lambda>i. recorded (prompts ! i) (answer env i)) [0..<?n]"
      unfolding res using final_result_no_stop [OF assms quiet, of _ prompts] by simp
    show "\<forall>r. map_option results (generatePoses (env\<lparr>rank := r\<rparr>) C prompts) = Some (results s)"
    proof
      fix r
      let ?env = "env\<lparr>rank := r\<rparr>"
      from generatePoses_closed_form [OF assms, of ?env prompts] obtain s2 where
        s2: "generatePoses ?env C prompts = Some s2"
        and res2: "results s2 = map (final_result ?env C prompts) [0..<?n]"
        by blast
      from quiet have "\<forall>j. \<not> stopBefore ?env j" by simp
      from final_result_no_stop [OF assms this, of _ prompts]
      have "results s2 = map (\<lambda>i. recorded (prompts ! i) (answer env i)) [0..<?n]"
        unfolding res2 by simp
      with eq s2 show "map_option results (generatePoses ?env C prompts) = Some (results s)"
        by simp
    qed
  qed
  from s 1 2 3 show ?thesis by blast
qed

lemma quiet_run_results:
  "map_option results (PoseTreadmill_generatePoses quiet_run) =
     Some (map (\<lambda>p. recorded p (Resolved (Image ''image/png'' ''iVBORw0KGgo=''))) TREADMILL_POSES)"
  by code_simp

theorem results_mirror_jobs_witness:
  "(0::nat) < 2 \<and> (\<forall>j. \<not> stopBefore quiet_run j) \<and>
   map_option results (generatePoses quiet_run 2 TREADMILL_POSES) =
     Some (map (\<lambda>p. recorded p (Resolved (Image ''image/png'' ''iVBORw0KGgo=''))) TREADMILL_POSES) \<and>
   map_option results (generatePoses (quiet_run\<lparr>rank := in_job_order\<rparr>) 2 TREADMILL_POSES) =
     Some (map (\<lambda>p. recorded p (Resolved (Image ''image/png'' ''iVBORw0KGgo=''))) TREADMILL_POSES)"
proof -
  have quiet: "\<forall>j. \<not> stopBefore quiet_run j" by (simp add: quiet_run_def no_stop_def)
  from results_mirror_jobs [of 2 quiet_run TREADMILL_POSES] quiet obtain s where
    "generatePoses quiet_run 2 TREADMILL_POSES = Some s"
    "\<forall>r. map_option results (generatePoses (quiet_run\<lparr>rank := r\<rparr>) 2 TREADMILL_POSES) =
          Some (results s)"
    by auto
  with quiet quiet_run_results show ?thesis
    by (simp add: PoseTreadmill_generatePoses_def)
qed

subsection \<open>Cancellation\<close>

text \<open>The loop does nothing more once it finds the flag cleared.\<close>

lemma window_loop_halts: "\<not> isRunning s \<Longrightarrow> window_loop env C n i s = Some s"
  by (subst window_loop.simps) simp




text \<open>A stop before a call of lower rank is a stop by the time a call of higher rank
  settles.\<close>

lemma sorted_after:
  assumes "sorted (map f xs)" "x \<in> set xs" "y \<in> set xs" "f y < f x"
  shows "y \<in> set (takeWhile (\<lambda>z. z \<noteq> x) xs)"
proof (rule ccontr)
  assume n: "y \<notin> set (takeWhile (\<lambda>z. z \<noteq> x) xs)"
  have split: "xs = takeWhile (\<lambda>z. z \<noteq> x) xs @ dropWhile (\<lambda>z. z \<noteq> x) xs" by simp
  from assms(2) have "dropWhile (\<lambda>z. z \<noteq> x) xs \<noteq> []" by simp
  then obtain rest where rest: "dropWhile (\<lambda>z. z \<noteq> x) xs = x # rest"
    using hd_dropWhile [of "\<lambda>z. z \<noteq> x" xs] by (cases "dropWhile (\<lambda>z. z \<noteq> x) xs") auto
  from assms(3) n split have "y \<in> set (dropWhile (\<lambda>z. z \<noteq> x) xs)"
    by (metis Un_iff set_append)
  with rest assms(4) have y: "y \<in> set rest" by auto
  from assms(1) have "sorted (map f (takeWhile (\<lambda>z. z \<noteq> x) xs @ x # rest))"
    using split rest by simp
  then have "sorted (map f (x # rest))" by (simp add: sorted_append)
  with y have "f x \<le> f y" by auto
  with assms(4) show False by simp
qed

lemma stopped_when_rank:
  assumes "i \<in> set chunk" "j \<in> set chunk" "stopBefore env j" "rank env j < rank env i"
  shows "stopped_when env chunk i"
proof -
  have "sorted (map (rank env) (settle_order env chunk))"
    by (simp add: settle_order_def)
  from sorted_after [OF this, of i j] assms
  have "j \<in> set (takeWhile (\<lambda>z. z \<noteq> i) (settle_order env chunk))" by simp
  with assms(3) show ?thesis by (auto simp: stopped_when_def)
qed





subsection \<open>Failures\<close>

text \<open>Two runs of \<^verbatim>\<open>PoseTreadmill\<close> in which every call is rejected, and one of
  \<^verbatim>\<open>PoseGanci\<close>.\<close>

lemma stopped_failing_calls_eval:
  "map_option snd (PoseTreadmill_generatePoses_call stopped_failing_calls) = Some Returns \<and>
   map_option (started \<circ> fst) (PoseTreadmill_generatePoses_call stopped_failing_calls) =
     Some [0, 1] \<and>
   map_option (map status \<circ> results \<circ> fst)
     (PoseTreadmill_generatePoses_call stopped_failing_calls) =
     Some [Error, Error, Pending, Pending]"
  by code_simp

lemma null_calls_eval:
  "map_option snd (PoseTreadmill_generatePoses_call null_calls) = Some Rejects \<and>
   map_option (started \<circ> fst) (PoseTreadmill_generatePoses_call null_calls) = Some [0, 1] \<and>
   map_option (map status \<circ> results \<circ> fst) (PoseTreadmill_generatePoses_call null_calls) =
     Some [Pending, Pending, Pending, Pending]"
  by code_simp

lemma failing_calls_eval:
  "map_option snd (PoseGanci_generatePoses_call failing_calls) = Some Returns \<and>
   map_option (started \<circ> fst) (PoseGanci_generatePoses_call failing_calls) =
     Some [0, 1, 2, 3, 4, 5, 6, 7, 8] \<and>
   map_option (map status \<circ> results \<circ> fst) (PoseGanci_generatePoses_call failing_calls) =
     Some [Error, Error, Error, Error, Error, Error, Error, Error, Error]"
  by code_simp

text \<open>The run of \<^verbatim>\<open>PoseGanci\<close> again, with an image as the answer to the call of job 4 in
  place of the rejection.\<close>

lemma one_image_eval:
  "map_option snd
     (PoseGanci_generatePoses_call
        (failing_calls\<lparr>call := (call failing_calls)(4 := all_image_calls 4)\<rparr>)) = Some Returns \<and>
   map_option (started \<circ> fst)
     (PoseGanci_generatePoses_call
        (failing_calls\<lparr>call := (call failing_calls)(4 := all_image_calls 4)\<rparr>)) =
     Some [0, 1, 2, 3, 4, 5, 6, 7, 8] \<and>
   map_option (map status \<circ> results \<circ> fst)
     (PoseGanci_generatePoses_call
        (failing_calls\<lparr>call := (call failing_calls)(4 := all_image_calls 4)\<rparr>)) =
     Some [Error, Error, Error, Error, Done, Error, Error, Error, Error]"
  by code_simp

text \<open>
  C9, as the specification states it: when every operation rejects, the run ends
  normally with every outcome failed. Two runs of \<^verbatim>\<open>PoseTreadmill\<close> in which every call
  is rejected. In the first the calls are rejected with an Error object and the flag is
  cleared during the first window: \<^verbatim>\<open>generatePoses\<close> returns, the two jobs of the first
  window are failed, and the two jobs of the skipped window are pending. In the second
  the flag is left alone and the calls are rejected with \<^verbatim>\<open>null\<close>: \<^verbatim>\<open>generatePoses\<close> is
  itself rejected after the first window, and every outcome is pending.
\<close>

theorem rejecting_runs_not_all_failed:
  "call stopped_failing_calls = all_quota_errors \<and>
   all_quota_errors 2 = CallRejected quota_error \<and>
   get_prop quota_error ''message'' = Some (JStr ''quota exceeded'') \<and>
   map_option snd (PoseTreadmill_generatePoses_call stopped_failing_calls) = Some Returns \<and>
   map_option (map status \<circ> results \<circ> fst)
     (PoseTreadmill_generatePoses_call stopped_failing_calls) =
     Some [Error, Error, Pending, Pending] \<and>
   call null_calls = all_null \<and>
   all_null 0 = CallRejected JNull \<and>
   call_stopBefore null_calls = no_stop \<and>
   map_option snd (PoseTreadmill_generatePoses_call null_calls) = Some Rejects \<and>
   map_option (map status \<circ> results \<circ> fst) (PoseTreadmill_generatePoses_call null_calls) =
     Some [Pending, Pending, Pending, Pending]"
  using stopped_failing_calls_eval null_calls_eval
  by (simp add: stopped_failing_calls_def null_calls_def all_quota_errors_def all_null_def
      quota_error_def)

text \<open>Which windows are run depends on the stops alone, and the entry of a job on the
  stops, the order of settling and its own answer.\<close>

lemma windows_run_answer [simp]:
  "windows_run (env\<lparr>answer := a\<rparr>) C n = windows_run env C n"
  by (simp add: windows_run_def stop_in_def)

lemma final_result_other_answer:
  "i' \<noteq> i \<Longrightarrow>
   final_result (env\<lparr>answer := (answer env)(i := r)\<rparr>) C prompts i' = final_result env C prompts i'"
  by (simp add: final_result_def outcome_def stopped_when_def settle_order_def)

text \<open>
  C9, amended. In a run in which no call is rejected with \<^verbatim>\<open>null\<close> or \<^verbatim>\<open>undefined\<close>:
  \<^verbatim>\<open>generatePoses\<close> returns; a job whose call is rejected with \<^verbatim>\<open>e\<close> is recorded as
  failed, with \<^verbatim>\<open>e.message\<close>, provided the job was started; how the call of a job
  settles (with any response, or any rejection but \<^verbatim>\<open>null\<close> and \<^verbatim>\<open>undefined\<close>) changes
  neither the windows that are run nor the jobs that are started nor the entry of any
  other job; and when the flag is not cleared every job is started, so that a run in
  which every call is rejected ends with every outcome failed.
\<close>

theorem failures_stay_local:
  assumes "0 < C" "no_nullish_rejection env"
  shows "\<exists>s. generatePoses_call env C prompts = Some (s, Returns) \<and>
           (\<forall>i e. i < length prompts \<and> call env i = CallRejected e \<longrightarrow>
              (\<exists>m. get_prop e ''message'' = Some m \<and>
                 results s ! i =
                   (if i \<in> set (started s)
                    then \<lparr>prompt = prompts ! i, status = Error, imageUrl = None,
                          errorMessage = Some m\<rparr>
                    else pending (prompts ! i)))) \<and>
           (\<forall>i r. r \<noteq> CallRejected JNull \<and> r \<noteq> CallRejected JUndefined \<longrightarrow>
              (\<exists>s2. generatePoses_call (env\<lparr>call := (call env)(i := r)\<rparr>) C prompts =
                      Some (s2, Returns) \<and>
                 chunks s2 = chunks s \<and> started s2 = started s \<and>
                 (\<forall>i' < length prompts. i' \<noteq> i \<longrightarrow> results s2 ! i' = results s ! i'))) \<and>
           ((\<forall>j. \<not> call_stopBefore env j) \<longrightarrow>
              started s = [0..<length prompts] \<and>
              (\<forall>i < length prompts. (\<exists>e. call env i = CallRejected e) \<longrightarrow>
                 status (results s ! i) = Error))"
proof -
  let ?n = "length prompts"
  let ?env = "seen_env env"
  let ?wr = "windows_run ?env C ?n"
  from generatePoses_closed_form [OF assms(1), of ?env prompts] obtain s where
    s0: "generatePoses ?env C prompts = Some s"
    and ch: "chunks s = map (window C ?n) [0..<?wr]"
    and st: "started s = [0..<min (?wr * C) ?n]"
    and res: "results s = map (final_result ?env C prompts) [0..<?n]"
    by blast
  have s: "generatePoses_call env C prompts = Some (s, Returns)"
    using generatePoses_call_seen [OF assms, of prompts] s0 by simp
  have rejected: "\<exists>m. get_prop e ''message'' = Some m \<and>
                 results s ! i =
                   (if i \<in> set (started s)
                    then \<lparr>prompt = prompts ! i, status = Error, imageUrl = None,
                          errorMessage = Some m\<rparr>
                    else pending (prompts ! i))"
    if i: "i < ?n" and e: "call env i = CallRejected e" for i e
  proof -
    from assms(2) e have "e \<noteq> JNull" "e \<noteq> JUndefined"
      by (auto simp: no_nullish_rejection_def)
    then have m: "get_prop e ''message'' = Some (opt_prop e ''message'')"
      by (rule get_prop_message)
    from e have "answer ?env i = Rejected (opt_prop e ''message'')"
      by (simp del: opt_prop.simps)
    with i res st have "results s ! i =
                   (if i \<in> set (started s)
                    then \<lparr>prompt = prompts ! i, status = Error, imageUrl = None,
                          errorMessage = Some (opt_prop e ''message'')\<rparr>
                    else pending (prompts ! i))"
      by (simp add: final_result_def outcome_def del: opt_prop.simps)
    with m show ?thesis by blast
  qed
  have 1: "\<forall>i e. i < ?n \<and> call env i = CallRejected e \<longrightarrow>
              (\<exists>m. get_prop e ''message'' = Some m \<and>
                 results s ! i =
                   (if i \<in> set (started s)
                    then \<lparr>prompt = prompts ! i, status = Error, imageUrl = None,
                          errorMessage = Some m\<rparr>
                    else pending (prompts ! i)))"
    using rejected by blast
  have 2: "\<forall>i r. r \<noteq> CallRejected JNull \<and> r \<noteq> CallRejected JUndefined \<longrightarrow>
              (\<exists>s2. generatePoses_call (env\<lparr>call := (call env)(i := r)\<rparr>) C prompts =
                      Some (s2, Returns) \<and>
                 chunks s2 = chunks s \<and> started s2 = started s \<and>
                 (\<forall>i' < ?n. i' \<noteq> i \<longrightarrow> results s2 ! i' = results s ! i'))"
  proof (intro allI impI)
    fix i r
    assume r: "r \<noteq> CallRejected JNull \<and> r \<noteq> CallRejected JUndefined"
    let ?env2 = "env\<lparr>call := (call env)(i := r)\<rparr>"
    let ?seen2 = "?env\<lparr>answer := (answer ?env)(i := seen r)\<rparr>"
    have objects: "no_nullish_rejection ?env2"
      using assms(2) r by (simp add: no_nullish_rejection_update)
    have seen2: "seen_env ?env2 = ?seen2" by (rule seen_env_update)
    from generatePoses_closed_form [OF assms(1), of ?seen2 prompts] obtain s2 where
      s2: "generatePoses ?seen2 C prompts = Some s2"
      and ch2: "chunks s2 = map (window C ?n) [0..<windows_run ?seen2 C ?n]"
      and st2: "started s2 = [0..<min (windows_run ?seen2 C ?n * C) ?n]"
      and res2: "results s2 = map (final_result ?seen2 C prompts) [0..<?n]"
      by blast
    have "generatePoses_call ?env2 C prompts = Some (s2, Returns)"
      using generatePoses_call_seen [OF assms(1) objects, of prompts] s2 seen2 by simp
    moreover have "chunks s2 = chunks s" using ch ch2 by simp
    moreover have "started s2 = started s" using st st2 by simp
    moreover have "\<forall>i' < ?n. i' \<noteq> i \<longrightarrow> results s2 ! i' = results s ! i'"
      using res res2 by (simp add: final_result_other_answer)
    ultimately show "\<exists>s2. generatePoses_call ?env2 C prompts = Some (s2, Returns) \<and>
              chunks s2 = chunks s \<and> started s2 = started s \<and>
              (\<forall>i' < ?n. i' \<noteq> i \<longrightarrow> results s2 ! i' = results s ! i')"
      by blast
  qed
  have 3: "started s = [0..<?n] \<and>
           (\<forall>i < ?n. (\<exists>e. call env i = CallRejected e) \<longrightarrow> status (results s ! i) = Error)"
    if quiet: "\<forall>j. \<not> call_stopBefore env j"
  proof
    from quiet have quiet': "\<forall>j. \<not> stopBefore ?env j" by simp
    show all: "started s = [0..<?n]"
      using st windows_run_no_stop [OF assms(1) quiet', of ?n]
        window_count_covers [OF assms(1), of ?n]
      by simp
    show "\<forall>i < ?n. (\<exists>e. call env i = CallRejected e) \<longrightarrow> status (results s ! i) = Error"
    proof (intro allI impI)
      fix i assume i: "i < ?n" and ex: "\<exists>e. call env i = CallRejected e"
      from ex obtain e where "call env i = CallRejected e" ..
      from rejected [OF i this] i all show "status (results s ! i) = Error" by auto
    qed
  qed
  from s 1 2 3 show ?thesis by blast
qed

theorem failures_stay_local_witness:
  "(0::nat) < 3 \<and> call_stopBefore failing_calls = no_stop \<and>
   call failing_calls = all_quota_errors \<and>
   get_prop quota_error ''message'' = Some (JStr ''quota exceeded'') \<and>
   map_option snd (PoseGanci_generatePoses_call failing_calls) = Some Returns \<and>
   map_option (started \<circ> fst) (PoseGanci_generatePoses_call failing_calls) =
     Some [0, 1, 2, 3, 4, 5, 6, 7, 8] \<and>
   map_option (map status \<circ> results \<circ> fst) (PoseGanci_generatePoses_call failing_calls) =
     Some [Error, Error, Error, Error, Error, Error, Error, Error, Error] \<and>
   all_image_calls 4 \<noteq> CallRejected JNull \<and> all_image_calls 4 \<noteq> CallRejected JUndefined \<and>
   map_option snd
     (PoseGanci_generatePoses_call
        (failing_calls\<lparr>call := (call failing_calls)(4 := all_image_calls 4)\<rparr>)) = Some Returns \<and>
   map_option (started \<circ> fst)
     (PoseGanci_generatePoses_call
        (failing_calls\<lparr>call := (call failing_calls)(4 := all_image_calls 4)\<rparr>)) =
     Some [0, 1, 2, 3, 4, 5, 6, 7, 8] \<and>
   map_option (map status \<circ> results \<circ> fst)
     (PoseGanci_generatePoses_call
        (failing_calls\<lparr>call := (call failing_calls)(4 := all_image_calls 4)\<rparr>)) =
     Some [Error, Error, Error, Error, Done, Error, Error, Error, Error]"
proof -
  have pos: "(0::nat) < 3" by simp
  have quiet: "\<forall>j. \<not> call_stopBefore failing_calls j"
    by (simp add: failing_calls_def no_stop_def)
  have objects: "no_nullish_rejection failing_calls"
    by (simp add: no_nullish_rejection_def failing_calls_def all_quota_errors_def quota_error_def)
  have image: "all_image_calls 4 \<noteq> CallRejected JNull \<and> all_image_calls 4 \<noteq> CallRejected JUndefined"
    by (simp add: all_image_calls_def)
  from failures_stay_local [OF pos objects, of GANCI_POSES] obtain s where
    s: "generatePoses_call failing_calls 3 GANCI_POSES = Some (s, Returns)"
    and other: "\<forall>i r. r \<noteq> CallRejected JNull \<and> r \<noteq> CallRejected JUndefined \<longrightarrow>
              (\<exists>s2. generatePoses_call (failing_calls\<lparr>call := (call failing_calls)(i := r)\<rparr>) 3
                      GANCI_POSES = Some (s2, Returns) \<and>
                 chunks s2 = chunks s \<and> started s2 = started s \<and>
                 (\<forall>i' < length GANCI_POSES. i' \<noteq> i \<longrightarrow> results s2 ! i' = results s ! i'))"
    and all: "(\<forall>j. \<not> call_stopBefore failing_calls j) \<longrightarrow> started s = [0..<length GANCI_POSES]"
    by blast
  from all quiet have "started s = [0..<length GANCI_POSES]" by (rule mp)
  moreover from other image obtain s2 where
    "generatePoses_call (failing_calls\<lparr>call := (call failing_calls)(4 := all_image_calls 4)\<rparr>) 3
       GANCI_POSES = Some (s2, Returns)" "started s2 = started s"
    by blast
  ultimately show ?thesis
    using s failing_calls_eval one_image_eval image
    by (simp add: failing_calls_def quota_error_def PoseGanci_generatePoses_call_def)
qed

section \<open>The batch runner of the batch editor\<close>

lemma edit_finally_fields [simp]:
  "edit_results (edit_finally s) = edit_results s"
  "edit_isRunning (edit_finally s) = edit_isRunning s"
  "edit_started (edit_finally s) = edit_started s"
  by (simp_all add: edit_finally_def)

lemma set_result_fields [simp]:
  "edit_isRunning (set_result job v s) = edit_isRunning s"
  "edit_started (set_result job v s) = edit_started s"
  by (simp_all add: set_result_def split: prod.split)

lemma entry_finally [simp]: "entry (edit_finally s) job = entry s job"
  by (simp add: entry_def)


lemma edit_settle_fields [simp]:
  "edit_isRunning (edit_settle env job s) = (edit_isRunning s \<and> \<not> stop_clicked_before env job)"
  "edit_started (edit_settle env job s) = edit_started s"
  by (auto simp: edit_settle_def editJob_settle_def split: edit_result.split response.split)

lemma entry_flag [simp]: "entry (s\<lparr>edit_isRunning := b\<rparr>) job = entry s job"
  by (simp add: entry_def)


lemma fold_edit_settle_fields [simp]:
  "edit_started (fold (edit_settle env) jobs s) = edit_started s"
  "edit_isRunning (fold (edit_settle env) jobs s) =
     (edit_isRunning s \<and> (\<forall>job \<in> set jobs. \<not> stop_clicked_before env job))"
  by (induction jobs arbitrary: s) auto


















end
